theory Spec2Isabelle
  imports Main "HOL-Library.Word"
begin

unbundle bit_operations_syntax

type_synonym u8 = "8 word"
type_synonym u32 = "32 word"

section \<open>Declarations shared by both files\<close>

text \<open>
  \<^verbatim>\<open>fscrypt_private.h\<close> and the kernel headers are not part of the sources. The
  constants and the predicate they declare, and whose values neither file fixes, are
  gathered in a record that every function below takes as its first argument; the
  theorems therefore hold for every header.
\<close>

record fscrypt_hdr =
  FSCRYPT_POLICY_V1 :: u8
  FSCRYPT_POLICY_FLAG_DIRECT_KEY :: u8
  FSCRYPT_KEY_DESCRIPTOR_SIZE :: nat
  FS_KEY_DERIVATION_NONCE_SIZE :: nat
  FS_CRYPTO_BLOCK_SIZE :: u32
  fscrypt_valid_enc_modes :: "u8 \<Rightarrow> u8 \<Rightarrow> bool"

text \<open>
  One such header, with the values of the Linux fscrypt headers: policy version 0,
  direct-key flag \<open>0x04\<close>, 8-byte key descriptors, 16-byte nonces, 16-byte cipher
  blocks, and the AES-256-XTS/AES-256-CTS (1, 4) and AES-128-CBC/AES-128-CTS (5, 6) mode
  pairs. It is used for evaluation only; no theorem depends on these values.
\<close>

definition linux_hdr :: fscrypt_hdr where
  "linux_hdr =
     \<lparr>FSCRYPT_POLICY_V1 = 0, FSCRYPT_POLICY_FLAG_DIRECT_KEY = 0x04,
      FSCRYPT_KEY_DESCRIPTOR_SIZE = 8, FS_KEY_DERIVATION_NONCE_SIZE = 16,
      FS_CRYPTO_BLOCK_SIZE = 16,
      fscrypt_valid_enc_modes = (\<lambda>c f. (c = 1 \<and> f = 4) \<or> (c = 5 \<and> f = 6))\<rparr>"

text \<open>
  Modelled from the spec: the macro \<^verbatim>\<open>FSCRYPT_POLICY_FLAGS_PAD_MASK\<close> (with its older
  name \<^verbatim>\<open>FS_POLICY_FLAGS_PAD_MASK\<close>) is declared in a header that is not among the
  sources. The padding selector occupies the low bits of the flags and selects one of
  4, 8, 16 or 32 bytes, which \<^verbatim>\<open>4 << (flags & mask)\<close> yields for the mask 3.
\<close>

definition FSCRYPT_POLICY_FLAGS_PAD_MASK :: u8 where
  "FSCRYPT_POLICY_FLAGS_PAD_MASK = 0x03"

text \<open>Negative return values, by name; \<open>EOTHER\<close> is any other code a collaborator returns.\<close>

datatype errno =
    EFAULT | EINVAL | EACCES | ENODATA | ENOTDIR | ENOENT | ENOTEMPTY | EEXIST | ERANGE
  | ENOKEY | ENAMETOOLONG | ENOMEM | EUCLEAN | ENOBUFS | EOVERFLOW | EOTHER int

section \<open>Policy manager (policy.c)\<close>

subsection \<open>Data\<close>

text \<open>
  \<^verbatim>\<open>union fscrypt_policy\<close> with its only member \<^verbatim>\<open>struct fscrypt_policy_v1\<close>, and
  \<^verbatim>\<open>struct fscrypt_context_v1\<close> (fields prefixed \<open>ctx_\<close>), which adds the nonce.
\<close>

record fscrypt_policy =
  version :: u8
  contents_encryption_mode :: u8
  filenames_encryption_mode :: u8
  flags :: u8
  master_key_descriptor :: "u8 list"

record fscrypt_context =
  ctx_version :: u8
  ctx_contents_encryption_mode :: u8
  ctx_filenames_encryption_mode :: u8
  ctx_flags :: u8
  ctx_master_key_descriptor :: "u8 list"
  nonce :: "u8 list"

text \<open>A policy whose key descriptor has the declared array size.\<close>

definition policy_wf :: "fscrypt_hdr \<Rightarrow> fscrypt_policy \<Rightarrow> bool" where
  "policy_wf h p = (length (master_key_descriptor p) = FSCRYPT_KEY_DESCRIPTOR_SIZE h)"

text \<open>The bytes of a policy as they lie in memory: four one-byte fields, then the descriptor.\<close>

definition policy_bytes :: "fscrypt_policy \<Rightarrow> u8 list" where
  "policy_bytes p =
     [version p, contents_encryption_mode p, filenames_encryption_mode p, flags p]
       @ master_key_descriptor p"

text \<open>The policy that a buffer of bytes holds (the inverse of \<open>policy_bytes\<close>).\<close>

definition policy_of_bytes :: "u8 list \<Rightarrow> fscrypt_policy" where
  "policy_of_bytes bs =
     \<lparr>version = bs ! 0, contents_encryption_mode = bs ! 1,
      filenames_encryption_mode = bs ! 2, flags = bs ! 3,
      master_key_descriptor = drop 4 bs\<rparr>"

text \<open>\<^verbatim>\<open>sizeof(struct fscrypt_policy_v1)\<close> and \<^verbatim>\<open>sizeof(struct fscrypt_context_v1)\<close>.\<close>

definition sizeof_policy_v1 :: "fscrypt_hdr \<Rightarrow> nat" where
  "sizeof_policy_v1 h = 4 + FSCRYPT_KEY_DESCRIPTOR_SIZE h"

definition sizeof_context_v1 :: "fscrypt_hdr \<Rightarrow> nat" where
  "sizeof_context_v1 h = 4 + FSCRYPT_KEY_DESCRIPTOR_SIZE h + FS_KEY_DERIVATION_NONCE_SIZE h"

text \<open>
  Modelled from the spec: \<^verbatim>\<open>fscrypt_policy_size\<close> is declared in \<^verbatim>\<open>fscrypt_private.h\<close>,
  which is not among the sources. The size is determined by the version: the size of the
  V1 structure for a V1 policy; \<^verbatim>\<open>fscrypt_ioctl_set_policy\<close> treats a size \<open>\<le> 0\<close> as
  an unknown version, so every other version has size 0.
\<close>

definition fscrypt_policy_size :: "fscrypt_hdr \<Rightarrow> fscrypt_policy \<Rightarrow> nat" where
  "fscrypt_policy_size h p =
     (if version p = FSCRYPT_POLICY_V1 h then sizeof_policy_v1 h else 0)"

text \<open>
  What the policy functions read of an inode: the file type tested by \<^verbatim>\<open>S_ISREG\<close>,
  \<^verbatim>\<open>S_ISDIR\<close> and \<^verbatim>\<open>S_ISLNK\<close>, the flags tested by \<^verbatim>\<open>IS_ENCRYPTED\<close>,
  \<^verbatim>\<open>IS_CASEFOLDED\<close> and \<^verbatim>\<open>IS_DEADDIR\<close>, and the cached \<^verbatim>\<open>i_crypt_info\<close>
  (\<open>None\<close> is the NULL pointer).
\<close>

datatype file_type = S_IFREG | S_IFDIR | S_IFLNK | S_IFOTHER

record fscrypt_info =
  ci_policy :: fscrypt_policy
  ci_flags :: u8

record inode =
  i_mode :: file_type
  IS_ENCRYPTED :: bool
  IS_CASEFOLDED :: bool
  IS_DEADDIR :: bool
  i_crypt_info :: "fscrypt_info option"

text \<open>
  The callbacks of \<^verbatim>\<open>inode->i_sb->s_cop\<close>. \<open>get_context\<close> returns a negative error or
  the context read together with its size; \<open>set_context\<close> returns 0 (\<open>None\<close>) or an error.
\<close>

record fscrypt_operations =
  get_context :: "inode \<Rightarrow> errno + (fscrypt_context \<times> nat)"
  set_context :: "inode \<Rightarrow> fscrypt_context \<Rightarrow> nat \<Rightarrow> errno option"
  empty_dir :: "inode \<Rightarrow> bool"
  max_namelen :: u32

text \<open>
  What \<^verbatim>\<open>fscrypt_ioctl_set_policy\<close> reads of the open file: its inode, and the results of
  \<^verbatim>\<open>inode_owner_or_capable\<close> and \<^verbatim>\<open>mnt_want_write_file\<close> for the caller.
\<close>

record struct_file =
  f_inode :: inode
  inode_owner_or_capable :: bool
  mnt_want_write_file :: "errno option"

subsection \<open>Validation\<close>

definition fscrypt_supported_v1_policy :: "fscrypt_hdr \<Rightarrow> fscrypt_policy \<Rightarrow> inode \<Rightarrow> bool" where
  "fscrypt_supported_v1_policy h policy ino =
     (if \<not> fscrypt_valid_enc_modes h (contents_encryption_mode policy)
             (filenames_encryption_mode policy) then False
      else if flags policy AND NOT (FSCRYPT_POLICY_FLAGS_PAD_MASK OR FSCRYPT_POLICY_FLAG_DIRECT_KEY h) \<noteq> 0
        then False
      else if flags policy AND FSCRYPT_POLICY_FLAG_DIRECT_KEY h \<noteq> 0 then False
      else if IS_CASEFOLDED ino then False
      else True)"

definition fscrypt_supported_policy :: "fscrypt_hdr \<Rightarrow> fscrypt_policy \<Rightarrow> inode \<Rightarrow> bool" where
  "fscrypt_supported_policy h policy_u ino =
     (if version policy_u = FSCRYPT_POLICY_V1 h then fscrypt_supported_v1_policy h policy_u ino
      else False)"

subsection \<open>Contexts\<close>

text \<open>
  \<^verbatim>\<open>fscrypt_new_context_from_policy\<close>: \<open>rnd\<close> is what \<^verbatim>\<open>get_random_bytes\<close> delivers.
  The result is the context and the returned size.
\<close>

definition fscrypt_new_context_from_policy ::
    "fscrypt_hdr \<Rightarrow> u8 list \<Rightarrow> fscrypt_policy \<Rightarrow> fscrypt_context \<times> nat" where
  "fscrypt_new_context_from_policy h rnd policy =
     (\<lparr>ctx_version = 1,
       ctx_contents_encryption_mode = contents_encryption_mode policy,
       ctx_filenames_encryption_mode = filenames_encryption_mode policy,
       ctx_flags = flags policy,
       ctx_master_key_descriptor = take (FSCRYPT_KEY_DESCRIPTOR_SIZE h) (master_key_descriptor policy),
       nonce = take (FS_KEY_DERIVATION_NONCE_SIZE h) rnd\<rparr>,
      sizeof_context_v1 h)"

definition fscrypt_policy_from_context ::
    "fscrypt_hdr \<Rightarrow> fscrypt_context \<Rightarrow> nat \<Rightarrow> errno + fscrypt_policy" where
  "fscrypt_policy_from_context h ctx ctx_size =
     (if ctx_version ctx = 1
      then Inr \<lparr>version = FSCRYPT_POLICY_V1 h,
                contents_encryption_mode = ctx_contents_encryption_mode ctx,
                filenames_encryption_mode = ctx_filenames_encryption_mode ctx,
                flags = ctx_flags ctx,
                master_key_descriptor =
                  take (FSCRYPT_KEY_DESCRIPTOR_SIZE h) (ctx_master_key_descriptor ctx)\<rparr>
      else Inl EINVAL)"

text \<open>
  \<^verbatim>\<open>set_encryption_policy\<close>: on success, the context handed to \<open>set_context\<close>.
\<close>

definition set_encryption_policy ::
    "fscrypt_hdr \<Rightarrow> fscrypt_operations \<Rightarrow> u8 list \<Rightarrow> inode \<Rightarrow> fscrypt_policy
      \<Rightarrow> errno + fscrypt_context" where
  "set_encryption_policy h cop rnd ino policy =
     (if \<not> fscrypt_supported_policy h policy ino then Inl EINVAL
      else case fscrypt_new_context_from_policy h rnd policy of
             (ctx, ctxsize) \<Rightarrow>
               (case set_context cop ino ctx ctxsize of
                  Some e \<Rightarrow> Inl e
                | None \<Rightarrow> Inr ctx))"

subsection \<open>Comparison\<close>

text \<open>\<^verbatim>\<open>!memcmp(a, b, n)\<close>: the first \<open>n\<close> bytes agree.\<close>

definition memcmp_eq :: "u8 list \<Rightarrow> u8 list \<Rightarrow> nat \<Rightarrow> bool" where
  "memcmp_eq a b n = (take n a = take n b)"

definition fscrypt_policies_equal :: "fscrypt_hdr \<Rightarrow> fscrypt_policy \<Rightarrow> fscrypt_policy \<Rightarrow> bool" where
  "fscrypt_policies_equal h policy1 policy2 =
     (if version policy1 \<noteq> version policy2 then False
      else memcmp_eq (policy_bytes policy1) (policy_bytes policy2) (fscrypt_policy_size h policy1))"

subsection \<open>Reading and setting the policy of an inode\<close>

definition fscrypt_get_policy ::
    "fscrypt_hdr \<Rightarrow> fscrypt_operations \<Rightarrow> inode \<Rightarrow> errno + fscrypt_policy" where
  "fscrypt_get_policy h cop ino =
     (case i_crypt_info ino of
        Some ci \<Rightarrow> Inr (ci_policy ci)
      | None \<Rightarrow>
          if \<not> IS_ENCRYPTED ino then Inl ENODATA
          else case get_context cop ino of
                 Inl e \<Rightarrow> Inl (if e = ERANGE then EINVAL else e)
               | Inr (ctx, ret) \<Rightarrow> fscrypt_policy_from_context h ctx ret)"

text \<open>
  \<^verbatim>\<open>fscrypt_ioctl_set_policy\<close>. \<open>arg\<close> holds the bytes readable at the user address:
  \<^verbatim>\<open>get_user\<close> faults when there is none and \<^verbatim>\<open>copy_from_user\<close> when there are fewer
  than \<open>size\<close>. The result is the error, or \<open>Inr\<close> for the return value 0: \<open>Some ctx\<close>
  when a context was stored and \<open>None\<close> when nothing was.
\<close>

definition fscrypt_ioctl_set_policy ::
    "fscrypt_hdr \<Rightarrow> fscrypt_operations \<Rightarrow> u8 list \<Rightarrow> struct_file \<Rightarrow> u8 list
      \<Rightarrow> errno + fscrypt_context option" where
  "fscrypt_ioctl_set_policy h cop rnd filp arg =
     (let ino = f_inode filp in
      case arg of
        [] \<Rightarrow> Inl EFAULT
      | v # _ \<Rightarrow>
          let size = fscrypt_policy_size h \<lparr>version = v, contents_encryption_mode = 0,
                       filenames_encryption_mode = 0, flags = 0, master_key_descriptor = []\<rparr>
          in if size \<le> 0 then Inl EINVAL
             else if length arg < size then Inl EFAULT
             else
               let policy = (policy_of_bytes (take size arg))\<lparr>version := v\<rparr>
               in if \<not> inode_owner_or_capable filp then Inl EACCES
                  else case mnt_want_write_file filp of
                         Some e \<Rightarrow> Inl e
                       | None \<Rightarrow>
                           (case fscrypt_get_policy h cop ino of
                              Inl ENODATA \<Rightarrow>
                                if i_mode ino \<noteq> S_IFDIR then Inl ENOTDIR
                                else if IS_DEADDIR ino then Inl ENOENT
                                else if \<not> empty_dir cop ino then Inl ENOTEMPTY
                                else map_sum id Some (set_encryption_policy h cop rnd ino policy)
                            | Inl EINVAL \<Rightarrow> Inl EEXIST
                            | Inl e \<Rightarrow> Inl e
                            | Inr existing_policy \<Rightarrow>
                                if \<not> fscrypt_policies_equal h policy existing_policy then Inl EEXIST
                                else Inr None))"


section \<open>Filename codec (fname.c)\<close>

subsection \<open>The binary-to-text encoding of no-key names\<close>

text \<open>The 64-character table of \<^verbatim>\<open>lookup_table\<close>.\<close>

definition lookup_table :: string where
  "lookup_table = ''ABCDEFGHIJKLMNOPQRSTUVWXYZabcdefghijklmnopqrstuvwxyz0123456789+,''"

text \<open>
  \<^verbatim>\<open>BASE64_CHARS(nbytes)\<close> is \<^verbatim>\<open>DIV_ROUND_UP((nbytes) * 4, 3)\<close>.
\<close>

definition BASE64_CHARS :: "nat \<Rightarrow> nat" where
  "BASE64_CHARS nbytes = (nbytes * 4 + 2) div 3"

text \<open>
  The inner \<^verbatim>\<open>do { *cp++ = lookup_table[ac & 0x3f]; ac >>= 6; bits -= 6; } while (bits >= 6)\<close>
  of \<^verbatim>\<open>base64_encode\<close>. The state is the accumulator \<open>ac\<close>, the number of pending
  \<open>bits\<close> (both C \<^verbatim>\<open>int\<close>) and the characters written to \<^verbatim>\<open>dst\<close> so far.
\<close>

function enc_emit :: "int \<Rightarrow> int \<Rightarrow> string \<Rightarrow> int \<times> int \<times> string" where
  "enc_emit ac bits cp =
     (if bits - 6 \<ge> 6
      then enc_emit (drop_bit 6 ac) (bits - 6) (cp @ [lookup_table ! nat (ac AND 0x3f)])
      else (drop_bit 6 ac, bits - 6, cp @ [lookup_table ! nat (ac AND 0x3f)]))"
  by pat_completeness auto
termination
  by (relation "measure (\<lambda>(ac, bits, cp). nat bits)") auto

declare enc_emit.simps [simp del]

text \<open>One iteration of the \<^verbatim>\<open>for\<close> loop: \<^verbatim>\<open>ac += src[i] << bits; bits += 8;\<close> and the inner loop.\<close>

definition enc_byte :: "int \<times> int \<times> string \<Rightarrow> u8 \<Rightarrow> int \<times> int \<times> string" where
  "enc_byte s b =
     (case s of (ac, bits, cp) \<Rightarrow> enc_emit (ac + push_bit (nat bits) (uint b)) (bits + 8) cp)"

text \<open>
  \<^verbatim>\<open>base64_encode(src, len, dst)\<close>: the model returns the characters written to
  \<^verbatim>\<open>dst\<close>; the C return value \<^verbatim>\<open>cp - dst\<close> is their number.
\<close>

definition base64_encode :: "u8 list \<Rightarrow> string" where
  "base64_encode src =
     (case foldl enc_byte (0, 0, []) src of
        (ac, bits, cp) \<Rightarrow> if bits \<noteq> 0 then cp @ [lookup_table ! nat (ac AND 0x3f)] else cp)"

text \<open>
  \<^verbatim>\<open>strchr(s, c)\<close> as the offset of the first occurrence of \<open>c\<close>; the terminating NUL
  counts as part of the string, so a NUL is found at offset \<open>length s\<close>.
\<close>

fun strchr :: "string \<Rightarrow> char \<Rightarrow> nat option" where
  "strchr [] c = (if c = CHR 0x00 then Some 0 else None)"
| "strchr (x # xs) c = (if x = c then Some 0 else map_option Suc (strchr xs c))"

text \<open>
  The loop of \<^verbatim>\<open>base64_decode\<close>: \<open>Inl (-2)\<close> is the early \<^verbatim>\<open>return -2\<close>; otherwise the
  final accumulator and the bytes written to \<^verbatim>\<open>dst\<close>.
\<close>

fun base64_decode_loop :: "string \<Rightarrow> int \<Rightarrow> int \<Rightarrow> u8 list \<Rightarrow> int + (int \<times> u8 list)" where
  "base64_decode_loop [] ac bits cp = Inr (ac, cp)"
| "base64_decode_loop (c # cs) ac bits cp =
     (case strchr lookup_table c of
        None \<Rightarrow> Inl (- 2)
      | Some p \<Rightarrow>
          if c = CHR 0x00 then Inl (- 2)
          else if bits + 6 \<ge> 8
          then base64_decode_loop cs (drop_bit 8 (ac + push_bit (nat bits) (int p))) (bits + 6 - 8)
                 (cp @ [word_of_int ((ac + push_bit (nat bits) (int p)) AND 0xff)])
          else base64_decode_loop cs (ac + push_bit (nat bits) (int p)) (bits + 6) cp)"

text \<open>
  \<^verbatim>\<open>base64_decode(src, len, dst)\<close>: \<open>Inl\<close> carries the negative return value (\<open>-2\<close> for
  a character outside the table, \<open>-1\<close> for left-over non-zero bits), \<open>Inr\<close> the bytes
  written to \<^verbatim>\<open>dst\<close>, whose number is the C return value.
\<close>

definition base64_decode :: "string \<Rightarrow> int + u8 list" where
  "base64_decode src =
     (case base64_decode_loop src 0 0 [] of
        Inl e \<Rightarrow> Inl e
      | Inr (ac, cp) \<Rightarrow> if ac \<noteq> 0 then Inl (- 1) else Inr cp)"


subsection \<open>Reading the encoding as numbers\<close>

text \<open>
  The bytes of a buffer as one number, first byte least significant; the base-64 digits
  of a number, least significant first, and the number a digit list denotes; the bytes
  of a number, least significant first.
\<close>

fun le_val :: "u8 list \<Rightarrow> nat" where
  "le_val [] = 0"
| "le_val (b # bs) = unat b + 256 * le_val bs"

fun digits64 :: "nat \<Rightarrow> nat \<Rightarrow> nat list" where
  "digits64 0 v = []"
| "digits64 (Suc m) v = (v mod 64) # digits64 m (v div 64)"

fun val64 :: "nat list \<Rightarrow> nat" where
  "val64 [] = 0"
| "val64 (d # ds) = d + 64 * val64 ds"

fun le_bytes :: "nat \<Rightarrow> nat \<Rightarrow> u8 list" where
  "le_bytes 0 v = []"
| "le_bytes (Suc j) v = of_nat (v mod 256) # le_bytes j (v div 256)"

text \<open>
  The encoding as the specification words it, most-significant-bit-first: the bytes form
  a number with the first byte most significant, zero bits are appended up to a multiple
  of six, and the six-bit groups are emitted from the top.
\<close>

fun be_val :: "u8 list \<Rightarrow> nat" where
  "be_val [] = 0"
| "be_val (b # bs) = unat b * 256 ^ length bs + be_val bs"

definition base64_msb_first :: "u8 list \<Rightarrow> string" where
  "base64_msb_first src =
     (let n = BASE64_CHARS (length src);
          v = be_val src * 2 ^ (6 * n - 8 * length src)
      in map (\<lambda>k. lookup_table ! (v div 64 ^ (n - 1 - k) mod 64)) [0..<n])"

subsection \<open>Collaborators\<close>

text \<open>
  The kernel services the codec calls: the allocator (whether \<^verbatim>\<open>kmalloc\<close> of a size
  succeeds, whether \<^verbatim>\<open>skcipher_request_alloc\<close> does), the block cipher keyed for an
  inode (it returns an error or the transformed buffer, of the length it was given), and
  the digest: \<open>sha256_tfm\<close> is the outcome of obtaining the shared transform
  (\<^verbatim>\<open>READ_ONCE(sha256_hash_tfm)\<close> or else \<^verbatim>\<open>crypto_alloc_shash\<close>), and
  \<open>crypto_shash_digest\<close> returns an error or the digest written to the result buffer.
\<close>

record crypto_env =
  kmalloc :: "nat \<Rightarrow> bool"
  skcipher_request_alloc :: bool
  crypto_skcipher_encrypt :: "fscrypt_info \<Rightarrow> u8 list \<Rightarrow> errno + u8 list"
  crypto_skcipher_decrypt :: "fscrypt_info \<Rightarrow> u8 list \<Rightarrow> errno + u8 list"
  sha256_tfm :: "errno option"
  crypto_shash_digest :: "u8 list \<Rightarrow> errno + u8 list"

text \<open>Names on disk are bytes, presented names are C strings; the casts between them.\<close>

definition FSTR_TO_QSTR :: "u8 list \<Rightarrow> string" where
  "FSTR_TO_QSTR name = map (\<lambda>b. char_of (unat b)) name"

definition qstr_bytes :: "string \<Rightarrow> u8 list" where
  "qstr_bytes name = map of_char name"

definition fscrypt_is_dot_dotdot :: "string \<Rightarrow> bool" where
  "fscrypt_is_dot_dotdot str =
     (if length str = 1 \<and> str ! 0 = CHR ''.'' then True
      else if length str = 2 \<and> str ! 0 = CHR ''.'' \<and> str ! 1 = CHR ''.'' then True
      else False)"

subsection \<open>Encrypting and decrypting a name\<close>

text \<open>
  \<^verbatim>\<open>fname_encrypt\<close>, with \<open>ci\<close> for \<^verbatim>\<open>inode->i_crypt_info\<close> (which its caller has
  checked): the name is copied into the output buffer and padded with NUL bytes to \<open>olen\<close>.
\<close>

definition fname_encrypt ::
    "crypto_env \<Rightarrow> fscrypt_info \<Rightarrow> string \<Rightarrow> nat \<Rightarrow> errno + u8 list" where
  "fname_encrypt env ci iname olen =
     (if olen < length iname then Inl ENOBUFS
      else let out = qstr_bytes iname @ replicate (olen - length iname) 0
           in if \<not> skcipher_request_alloc env then Inl ENOMEM
              else crypto_skcipher_encrypt env ci out)"

text \<open>
  \<^verbatim>\<open>fname_decrypt\<close>: the length of the result is \<^verbatim>\<open>strnlen(oname->name, iname->len)\<close>.
\<close>

definition fname_decrypt ::
    "crypto_env \<Rightarrow> fscrypt_info \<Rightarrow> u8 list \<Rightarrow> errno + string" where
  "fname_decrypt env ci iname =
     (if \<not> skcipher_request_alloc env then Inl ENOMEM
      else case crypto_skcipher_decrypt env ci iname of
             Inl res \<Rightarrow> Inl res
           | Inr out \<Rightarrow> Inr (FSTR_TO_QSTR (takeWhile (\<lambda>b. b \<noteq> 0) (take (length iname) out))))"

text \<open>
  Modelled from the spec: \<^verbatim>\<open>round_up\<close> is a kernel macro that is not among the sources.
  It rounds \<open>x\<close> up to the nearest multiple of the power of two \<open>y\<close>, in the type of
  \<open>x\<close>: \<^verbatim>\<open>((x - 1) | (typeof(x))(y - 1)) + 1\<close>.
\<close>

definition round_up :: "u32 \<Rightarrow> int \<Rightarrow> u32" where
  "round_up x y = ((x - 1) OR word_of_int (y - 1)) + 1"

text \<open>
  \<^verbatim>\<open>fscrypt_fname_encrypted_size\<close>, with \<open>ci\<close> for \<^verbatim>\<open>inode->i_crypt_info\<close>: \<open>None\<close>
  is the return value \<^verbatim>\<open>false\<close>, \<open>Some len\<close> is \<^verbatim>\<open>true\<close> with \<^verbatim>\<open>*encrypted_len_ret = len\<close>.
\<close>

definition fname_padding :: "fscrypt_info \<Rightarrow> int" where
  "fname_padding ci = push_bit (unat (ci_flags ci AND FSCRYPT_POLICY_FLAGS_PAD_MASK)) 4"

definition fscrypt_fname_encrypted_size ::
    "fscrypt_hdr \<Rightarrow> fscrypt_info \<Rightarrow> u32 \<Rightarrow> u32 \<Rightarrow> u32 option" where
  "fscrypt_fname_encrypted_size h ci orig_len max_len =
     (if orig_len > max_len then None
      else Some (min (round_up (max orig_len (FS_CRYPTO_BLOCK_SIZE h)) (fname_padding ci)) max_len))"

subsection \<open>No-key names\<close>

text \<open>
  \<^verbatim>\<open>struct fscrypt_nokey_name { u32 dirhash[2]; u8 bytes[149]; u8 sha256[32]; }\<close>: the
  offsets of \<^verbatim>\<open>bytes\<close> and \<^verbatim>\<open>sha256\<close>, and \<^verbatim>\<open>FSCRYPT_NOKEY_NAME_MAX\<close>, the offset of
  the end of \<^verbatim>\<open>sha256\<close>.
\<close>

definition offsetof_bytes :: nat where
  "offsetof_bytes = 8"

definition sizeof_bytes :: nat where
  "sizeof_bytes = 149"

definition offsetof_sha256 :: nat where
  "offsetof_sha256 = 157"

definition FSCRYPT_NOKEY_NAME_MAX :: nat where
  "FSCRYPT_NOKEY_NAME_MAX = 189"

text \<open>A \<^verbatim>\<open>u32\<close> in memory, on the little-endian machines this kernel tree is built for.\<close>

definition u32_bytes :: "u32 \<Rightarrow> u8 list" where
  "u32_bytes w = [ucast w, ucast (drop_bit 8 w), ucast (drop_bit 16 w), ucast (drop_bit 24 w)]"

definition u32_of_bytes :: "u8 list \<Rightarrow> u32" where
  "u32_of_bytes bs =
     ucast (bs ! 0) OR push_bit 8 (ucast (bs ! 1)) OR push_bit 16 (ucast (bs ! 2))
       OR push_bit 24 (ucast (bs ! 3))"

text \<open>
  \<^verbatim>\<open>fscrypt_do_sha256\<close>: obtaining the shared transform may fail, and so may the digest.
\<close>

definition fscrypt_do_sha256 :: "crypto_env \<Rightarrow> u8 list \<Rightarrow> errno + u8 list" where
  "fscrypt_do_sha256 env data =
     (case sha256_tfm env of
        Some e \<Rightarrow> Inl e
      | None \<Rightarrow> crypto_shash_digest env data)"

text \<open>The pair stored in \<^verbatim>\<open>nokey_name.dirhash\<close>: zeroed when \<^verbatim>\<open>hash\<close> is 0.\<close>

definition nokey_dirhash :: "u32 \<Rightarrow> u32 \<Rightarrow> u32 \<times> u32" where
  "nokey_dirhash dhash dminor = (if dhash \<noteq> 0 then (dhash, dminor) else (0, 0))"

text \<open>
  \<^verbatim>\<open>fscrypt_fname_disk_to_usr\<close>: the presented name written to \<^verbatim>\<open>oname\<close>, or the error.
  The key is available when \<^verbatim>\<open>i_crypt_info\<close> is set (``key available, use the cached
  policy'' in \<^verbatim>\<open>fscrypt_get_policy\<close>). The bytes encoded are the first \<^verbatim>\<open>size\<close> bytes of
  the \<^verbatim>\<open>nokey_name\<close> structure.
\<close>

definition fscrypt_fname_disk_to_usr ::
    "fscrypt_hdr \<Rightarrow> crypto_env \<Rightarrow> inode \<Rightarrow> u32 \<Rightarrow> u32 \<Rightarrow> u8 list \<Rightarrow> errno + string" where
  "fscrypt_fname_disk_to_usr h env ino dhash dminor iname =
     (if fscrypt_is_dot_dotdot (FSTR_TO_QSTR iname)
      then Inr (replicate (length iname) CHR ''.'')
      else if length iname < unat (FS_CRYPTO_BLOCK_SIZE h) then Inl EUCLEAN
      else case i_crypt_info ino of
             Some ci \<Rightarrow> fname_decrypt env ci iname
           | None \<Rightarrow>
               (case nokey_dirhash dhash dminor of
                  (d0, d1) \<Rightarrow>
                    if length iname \<le> sizeof_bytes
                    then Inr (base64_encode
                                (take (offsetof_bytes + length iname)
                                   (u32_bytes d0 @ u32_bytes d1 @ iname)))
                    else case fscrypt_do_sha256 env (drop sizeof_bytes iname) of
                           Inl err \<Rightarrow> Inl err
                         | Inr digest \<Rightarrow>
                             Inr (base64_encode
                                    (take FSCRYPT_NOKEY_NAME_MAX
                                       (u32_bytes d0 @ u32_bytes d1 @ take sizeof_bytes iname
                                          @ digest)))))"

subsection \<open>Preparing a name for a directory search\<close>

text \<open>
  \<^verbatim>\<open>struct fscrypt_name\<close>; a \<^verbatim>\<open>struct fscrypt_str\<close> left zeroed by the initial
  \<^verbatim>\<open>memset\<close> (no name, length 0) is \<open>None\<close>.
\<close>

record fscrypt_name =
  usr_fname :: string
  disk_name :: "u8 list option"
  hash :: u32
  minor_hash :: u32
  crypto_buf :: "u8 list option"
  is_ciphertext_name :: bool

definition fscrypt_setup_filename ::
    "fscrypt_hdr \<Rightarrow> fscrypt_operations \<Rightarrow> (inode \<Rightarrow> errno + inode) \<Rightarrow> crypto_env
      \<Rightarrow> inode \<Rightarrow> string \<Rightarrow> int \<Rightarrow> errno + fscrypt_name" where
  "fscrypt_setup_filename h cop gei env dir iname lookup =
     (let fname = \<lparr>usr_fname = iname, disk_name = None, hash = 0, minor_hash = 0,
                    crypto_buf = None, is_ciphertext_name = False\<rparr>
      in if \<not> IS_ENCRYPTED dir \<or> fscrypt_is_dot_dotdot iname
         then Inr (fname\<lparr>disk_name := Some (qstr_bytes iname)\<rparr>)
         else case gei dir of
                Inl ret \<Rightarrow> Inl ret
              | Inr dir' \<Rightarrow>
                  (case i_crypt_info dir' of
                     Some ci \<Rightarrow>
                       (case fscrypt_fname_encrypted_size h ci (of_nat (length iname))
                               (max_namelen cop) of
                          None \<Rightarrow> Inl ENAMETOOLONG
                        | Some len \<Rightarrow>
                            if \<not> kmalloc env (unat len) then Inl ENOMEM
                            else case fname_encrypt env ci iname (unat len) of
                                   Inl ret \<Rightarrow> Inl ret
                                 | Inr buf \<Rightarrow>
                                     Inr (fname\<lparr>crypto_buf := Some buf, disk_name := Some buf\<rparr>))
                   | None \<Rightarrow>
                       if lookup = 0 then Inl ENOKEY
                       else if length iname > BASE64_CHARS FSCRYPT_NOKEY_NAME_MAX then Inl ENOENT
                       else if \<not> kmalloc env FSCRYPT_NOKEY_NAME_MAX then Inl ENOMEM
                       else
                         let r = base64_decode iname;
                             ret = (case r of Inl e \<Rightarrow> e | Inr bs \<Rightarrow> int (length bs));
                             buf = (case r of Inl e \<Rightarrow> [] | Inr bs \<Rightarrow> bs)
                         in if ret < int (offsetof_bytes + 1)
                                 \<or> (ret > int offsetof_sha256 \<and> ret \<noteq> int FSCRYPT_NOKEY_NAME_MAX)
                            then Inl ENOENT
                            else
                              let fname' = fname\<lparr>is_ciphertext_name := True,
                                                 crypto_buf := Some buf,
                                                 hash := u32_of_bytes (take 4 buf),
                                                 minor_hash := u32_of_bytes (take 4 (drop 4 buf))\<rparr>
                              in if ret \<noteq> int FSCRYPT_NOKEY_NAME_MAX
                                 then Inr (fname'\<lparr>disk_name := Some (drop offsetof_bytes buf)\<rparr>)
                                 else Inr fname'))"

section \<open>Values used for evaluation\<close>

text \<open>
  A V1 policy, a second one with another key descriptor, an inode of a given type and
  encryption state, a file system whose callbacks store nothing, kernel services that
  always succeed (with a cipher that leaves the buffer as it is and a digest of 32 fixed
  bytes), and the two simplest behaviours of \<^verbatim>\<open>fscrypt_get_encryption_info\<close>.
\<close>

definition ex_policy :: fscrypt_policy where
  "ex_policy = \<lparr>version = 0, contents_encryption_mode = 1, filenames_encryption_mode = 4,
                 flags = 0x02, master_key_descriptor = [1, 2, 3, 4, 5, 6, 7, 8]\<rparr>"

definition ex_policy2 :: fscrypt_policy where
  "ex_policy2 = \<lparr>version = 0, contents_encryption_mode = 1, filenames_encryption_mode = 4,
                  flags = 0x02, master_key_descriptor = [8, 7, 6, 5, 4, 3, 2, 1]\<rparr>"

definition ex_inode :: "file_type \<Rightarrow> bool \<Rightarrow> fscrypt_policy option \<Rightarrow> inode" where
  "ex_inode t enc pol =
     \<lparr>i_mode = t, IS_ENCRYPTED = enc, IS_CASEFOLDED = False, IS_DEADDIR = False,
      i_crypt_info = map_option (\<lambda>p. \<lparr>ci_policy = p, ci_flags = flags p\<rparr>) pol\<rparr>"

definition ex_ci :: "u8 \<Rightarrow> fscrypt_info" where
  "ex_ci fl = \<lparr>ci_policy = ex_policy, ci_flags = fl\<rparr>"

definition ex_cop :: fscrypt_operations where
  "ex_cop = \<lparr>get_context = (\<lambda>ino. Inl ENODATA), set_context = (\<lambda>ino ctx n. None),
              empty_dir = (\<lambda>ino. True), max_namelen = 255\<rparr>"

definition ex_env :: crypto_env where
  "ex_env = \<lparr>kmalloc = (\<lambda>n. True), skcipher_request_alloc = True,
              crypto_skcipher_encrypt = (\<lambda>ci buf. Inr buf),
              crypto_skcipher_decrypt = (\<lambda>ci buf. Inr buf),
              sha256_tfm = None,
              crypto_shash_digest = (\<lambda>data. Inr (replicate 32 0x5a))\<rparr>"

definition ex_file :: "inode \<Rightarrow> struct_file" where
  "ex_file ino = \<lparr>f_inode = ino, inode_owner_or_capable = True, mnt_want_write_file = None\<rparr>"

definition gei_ok :: "inode \<Rightarrow> errno + inode" where
  "gei_ok ino = Inr ino"


section \<open>Properties of the encoding\<close>

subsection \<open>Bit operations on the accumulator\<close>

lemma int_and_63: "(a::int) AND 63 = a mod 64"
proof -
  have "a AND 63 = a AND mask 6" by (simp add: mask_eq_exp_minus_1)
  also have "\<dots> = take_bit 6 a" by (simp only: take_bit_eq_mask)
  also have "\<dots> = a mod 64" by (simp add: take_bit_eq_mod)
  finally show ?thesis .
qed

lemma int_and_255: "(a::int) AND 255 = a mod 256"
proof -
  have "a AND 255 = a AND mask 8" by (simp add: mask_eq_exp_minus_1)
  also have "\<dots> = take_bit 8 a" by (simp only: take_bit_eq_mask)
  also have "\<dots> = a mod 256" by (simp add: take_bit_eq_mod)
  finally show ?thesis .
qed


subsection \<open>The encoder emits the base-64 digits of the buffer\<close>

lemma int_div64: "int x div 64 = int (x div 64)"
  by (simp add: zdiv_int)
lemma int_mod64: "int x mod 64 = int (x mod 64)"
  by (simp add: zmod_int)
lemma int_div256: "int x div 256 = int (x div 256)"
  by (simp add: zdiv_int)
lemma int_mod256: "int x mod 256 = int (x mod 256)"
  by (simp add: zmod_int)

lemma enc_emit_8: "enc_emit (int x) 8 cp = (int (x div 64), 2, cp @ [lookup_table ! (x mod 64)])"
  by (simp add: enc_emit.simps int_and_63 drop_bit_eq_div int_div64 int_mod64)

lemma enc_emit_10: "enc_emit (int x) 10 cp = (int (x div 64), 4, cp @ [lookup_table ! (x mod 64)])"
  by (simp add: enc_emit.simps int_and_63 drop_bit_eq_div int_div64 int_mod64)

lemma enc_emit_12: "enc_emit (int x) 12 cp =
    (int (x div 64 div 64), 0, cp @ [lookup_table ! (x mod 64), lookup_table ! (x div 64 mod 64)])"
  by (simp add: enc_emit.simps int_and_63 drop_bit_eq_div int_div64 int_mod64)

lemma enc_byte_0: "enc_byte (int a, 0, cp) b =
    (int ((a + unat b) div 64), 2, cp @ [lookup_table ! ((a + unat b) mod 64)])"
proof -
  have "enc_byte (int a, 0, cp) b = enc_emit (int a + push_bit (nat 0) (uint b)) 8 cp"
    by (simp add: enc_byte_def)
  also have "int a + push_bit (nat 0) (uint b) = int (a + unat b)"
    by (simp add: push_bit_eq_mult)
  finally show ?thesis
    by (simp only: enc_emit_8)
qed

lemma enc_byte_2: "enc_byte (int a, 2, cp) b =
    (int ((a + 4 * unat b) div 64), 4, cp @ [lookup_table ! ((a + 4 * unat b) mod 64)])"
proof -
  have "enc_byte (int a, 2, cp) b = enc_emit (int a + push_bit (nat 2) (uint b)) 10 cp"
    by (simp add: enc_byte_def)
  also have "int a + push_bit (nat 2) (uint b) = int (a + 4 * unat b)"
    by (simp add: push_bit_eq_mult)
  finally show ?thesis
    by (simp only: enc_emit_10)
qed

lemma enc_byte_4: "enc_byte (int a, 4, cp) b =
    (int ((a + 16 * unat b) div 64 div 64), 0,
     cp @ [lookup_table ! ((a + 16 * unat b) mod 64), lookup_table ! ((a + 16 * unat b) div 64 mod 64)])"
proof -
  have "enc_byte (int a, 4, cp) b = enc_emit (int a + push_bit (nat 4) (uint b)) 12 cp"
    by (simp add: enc_byte_def)
  also have "int a + push_bit (nat 4) (uint b) = int (a + 16 * unat b)"
    by (simp add: push_bit_eq_mult)
  finally show ?thesis
    by (simp only: enc_emit_12)
qed

lemma divmod64_add:
  "(x + 64 * y) mod 64 = x mod 64" "(x + 64 * y) div 64 = x div 64 + y" for x y :: nat
  by simp_all

lemma enc_general:
  assumes "r = 0 \<or> r = 2 \<or> r = 4"
  shows "(case foldl enc_byte (int a, int r, cp) src of
           (ac, bits, out) \<Rightarrow> if bits \<noteq> 0 then out @ [lookup_table ! nat (ac AND 0x3f)] else out)
         = cp @ map ((!) lookup_table) (digits64 ((r + 8 * length src + 5) div 6) (a + 2 ^ r * le_val src))"
  using assms
proof (induction src arbitrary: a r cp)
  case Nil
  from Nil consider "r = 0" | "r = 2" | "r = 4" by blast
  then show ?case
  proof cases
    case 1
    then show ?thesis by simp
  next
    case 2
    have "(2 + 8 * length ([]::u8 list) + 5) div 6 = Suc 0" by simp
    then show ?thesis unfolding 2 by (simp add: int_and_63 int_mod64)
  next
    case 3
    have "(4 + 8 * length ([]::u8 list) + 5) div 6 = Suc 0" by simp
    then show ?thesis unfolding 3 by (simp add: int_and_63 int_mod64)
  qed
next
  case (Cons b src)
  from Cons.prems consider "r = 0" | "r = 2" | "r = 4" by blast
  then show ?case
  proof cases
    case 1
    have n: "(0 + 8 * length (b # src) + 5) div 6 = Suc ((2 + 8 * length src + 5) div 6)"
      by simp
    have e: "a + 2 ^ 0 * le_val (b # src) = (a + unat b) + 64 * (2 ^ 2 * le_val src)"
      by simp
    have v: "(a + 2 ^ 0 * le_val (b # src)) mod 64 = (a + unat b) mod 64"
            "(a + 2 ^ 0 * le_val (b # src)) div 64 = (a + unat b) div 64 + 2 ^ 2 * le_val src"
      unfolding e by (simp_all only: divmod64_add)
    show ?thesis
      unfolding 1 n digits64.simps v
      using Cons.IH [of 2 "(a + unat b) div 64" "cp @ [lookup_table ! ((a + unat b) mod 64)]"]
      by (simp add: enc_byte_0)
  next
    case 2
    have n: "(2 + 8 * length (b # src) + 5) div 6 = Suc ((4 + 8 * length src + 5) div 6)"
      by simp
    have e: "a + 2 ^ 2 * le_val (b # src) = (a + 4 * unat b) + 64 * (2 ^ 4 * le_val src)"
      by simp
    have v: "(a + 2 ^ 2 * le_val (b # src)) mod 64 = (a + 4 * unat b) mod 64"
            "(a + 2 ^ 2 * le_val (b # src)) div 64 = (a + 4 * unat b) div 64 + 2 ^ 4 * le_val src"
      unfolding e by (simp_all only: divmod64_add)
    show ?thesis
      unfolding 2 n digits64.simps v
      using Cons.IH [of 4 "(a + 4 * unat b) div 64" "cp @ [lookup_table ! ((a + 4 * unat b) mod 64)]"]
      by (simp add: enc_byte_2)
  next
    case 3
    have n: "(4 + 8 * length (b # src) + 5) div 6 = Suc (Suc ((0 + 8 * length src + 5) div 6))"
      by simp
    have e: "a + 2 ^ 4 * le_val (b # src) = (a + 16 * unat b) + 64 * (64 * le_val src)"
      by simp
    have v: "(a + 2 ^ 4 * le_val (b # src)) mod 64 = (a + 16 * unat b) mod 64"
            "(a + 2 ^ 4 * le_val (b # src)) div 64 = (a + 16 * unat b) div 64 + 64 * le_val src"
      unfolding e by (simp_all only: divmod64_add)
    have w: "((a + 16 * unat b) div 64 + 64 * le_val src) mod 64 = (a + 16 * unat b) div 64 mod 64"
            "((a + 16 * unat b) div 64 + 64 * le_val src) div 64 = (a + 16 * unat b) div 64 div 64 + 2 ^ 0 * le_val src"
      by simp_all
    show ?thesis
      unfolding 3 n digits64.simps v w
      using Cons.IH [of 0 "(a + 16 * unat b) div 64 div 64"
          "cp @ [lookup_table ! ((a + 16 * unat b) mod 64), lookup_table ! ((a + 16 * unat b) div 64 mod 64)]"]
      by (simp add: enc_byte_4)
  qed
qed

subsection \<open>The table and the decoder\<close>

lemma length_lookup_table: "length lookup_table = 64"
  by (simp add: lookup_table_def)

lemma distinct_lookup_table: "distinct lookup_table"
  by (simp add: lookup_table_def)

lemma NUL_notin_lookup_table: "CHR 0x00 \<notin> set lookup_table"
  by (simp add: lookup_table_def)

lemma strchr_nth: "distinct s \<Longrightarrow> k < length s \<Longrightarrow> strchr s (s ! k) = Some k"
proof (induction s arbitrary: k)
  case Nil
  then show ?case by simp
next
  case (Cons x xs)
  show ?case
  proof (cases k)
    case 0
    then show ?thesis by simp
  next
    case (Suc j)
    with Cons.prems have "j < length xs" "xs ! j \<noteq> x" "distinct xs"
      by auto
    with Cons.IH [of j] Suc show ?thesis by simp
  qed
qed

lemma strchr_lookup_table: "d < 64 \<Longrightarrow> strchr lookup_table (lookup_table ! d) = Some d"
  by (simp add: strchr_nth distinct_lookup_table length_lookup_table)

lemma lookup_table_nth_not_NUL: "d < 64 \<Longrightarrow> lookup_table ! d \<noteq> CHR 0x00"
  using NUL_notin_lookup_table nth_mem [of d lookup_table]
  by (metis length_lookup_table)

lemma dec_step:
  assumes "d < 64"
  shows "base64_decode_loop (lookup_table ! d # cs) (int a) (int r) cp =
     (if 2 \<le> r
      then base64_decode_loop cs (int ((a + 2 ^ r * d) div 256)) (int r - 2)
             (cp @ [of_nat ((a + 2 ^ r * d) mod 256)])
      else base64_decode_loop cs (int (a + 2 ^ r * d)) (int r + 6) cp)"
proof -
  have e: "int a + push_bit (nat (int r)) (int d) = int (a + 2 ^ r * d)"
    by (simp add: push_bit_eq_mult)
  have w: "(word_of_int (int (a + 2 ^ r * d) AND 0xff) :: u8) = of_nat ((a + 2 ^ r * d) mod 256)"
    by (simp only: int_and_255 int_mod256 of_int_of_nat_eq)
  show ?thesis
    using assms
    by (simp only: base64_decode_loop.simps strchr_lookup_table lookup_table_nth_not_NUL
         option.case if_False e w drop_bit_eq_div int_div256) (simp add: zdiv_int)
qed


lemma divmod256_add:
  "(x + 256 * y) mod 256 = x mod 256" "(x + 256 * y) div 256 = x div 256 + y" for x y :: nat
  by simp_all

lemma dec_general:
  assumes "r = 0 \<or> r = 2 \<or> r = 4 \<or> r = 6" and "\<forall>d\<in>set ds. d < 64"
  shows "base64_decode_loop (map ((!) lookup_table) ds) (int a) (int r) cp =
     Inr (int ((a + 2 ^ r * val64 ds) div 256 ^ ((r + 6 * length ds) div 8)),
          cp @ le_bytes ((r + 6 * length ds) div 8) (a + 2 ^ r * val64 ds))"
  using assms
proof (induction ds arbitrary: a r cp)
  case Nil
  then show ?case by auto
next
  case (Cons d ds)
  from Cons.prems have d: "d < 64" and ds: "\<forall>d\<in>set ds. d < 64"
    by simp_all
  have step: "base64_decode_loop (map ((!) lookup_table) (d # ds)) (int a) (int r) cp =
     (if 2 \<le> r
      then base64_decode_loop (map ((!) lookup_table) ds) (int ((a + 2 ^ r * d) div 256)) (int r - 2)
             (cp @ [of_nat ((a + 2 ^ r * d) mod 256)])
      else base64_decode_loop (map ((!) lookup_table) ds) (int (a + 2 ^ r * d)) (int r + 6) cp)"
    by (simp only: list.map dec_step [OF d])
  from Cons.prems consider "r = 0" | "r = 2" | "r = 4" | "r = 6" by blast
  then show ?case
  proof cases
    case 1
    have n: "(0 + 6 * length (d # ds)) div 8 = (6 + 6 * length ds) div 8"
      by simp
    have e: "a + 2 ^ 0 * val64 (d # ds) = (a + 2 ^ 0 * d) + 2 ^ 6 * val64 ds"
      by simp
    show ?thesis
      unfolding step unfolding 1 n e
      using Cons.IH [of 6 "a + 2 ^ 0 * d" cp] ds
      by simp
  next
    case 2
    have n: "(2 + 6 * length (d # ds)) div 8 = Suc ((0 + 6 * length ds) div 8)"
      by simp
    have e: "a + 2 ^ 2 * val64 (d # ds) = (a + 2 ^ 2 * d) + 256 * (2 ^ 0 * val64 ds)"
      by simp
    have v: "(a + 2 ^ 2 * val64 (d # ds)) mod 256 = (a + 2 ^ 2 * d) mod 256"
            "(a + 2 ^ 2 * val64 (d # ds)) div 256 = (a + 2 ^ 2 * d) div 256 + 2 ^ 0 * val64 ds"
      unfolding e by (simp_all only: divmod256_add)
    have p: "x div 256 ^ Suc j = x div 256 div 256 ^ j" for x j :: nat
      by (simp add: div_mult2_eq)
    show ?thesis
      unfolding step unfolding 2 n le_bytes.simps p v
      using Cons.IH [of 0 "(a + 2 ^ 2 * d) div 256" "cp @ [of_nat ((a + 2 ^ 2 * d) mod 256)]"] ds
      by simp
  next
    case 3
    have n: "(4 + 6 * length (d # ds)) div 8 = Suc ((2 + 6 * length ds) div 8)"
      by simp
    have e: "a + 2 ^ 4 * val64 (d # ds) = (a + 2 ^ 4 * d) + 256 * (2 ^ 2 * val64 ds)"
      by simp
    have v: "(a + 2 ^ 4 * val64 (d # ds)) mod 256 = (a + 2 ^ 4 * d) mod 256"
            "(a + 2 ^ 4 * val64 (d # ds)) div 256 = (a + 2 ^ 4 * d) div 256 + 2 ^ 2 * val64 ds"
      unfolding e by (simp_all only: divmod256_add)
    have p: "x div 256 ^ Suc j = x div 256 div 256 ^ j" for x j :: nat
      by (simp add: div_mult2_eq)
    show ?thesis
      unfolding step unfolding 3 n le_bytes.simps p v
      using Cons.IH [of 2 "(a + 2 ^ 4 * d) div 256" "cp @ [of_nat ((a + 2 ^ 4 * d) mod 256)]"] ds
      by simp
  next
    case 4
    have n: "(6 + 6 * length (d # ds)) div 8 = Suc ((4 + 6 * length ds) div 8)"
      by simp
    have e: "a + 2 ^ 6 * val64 (d # ds) = (a + 2 ^ 6 * d) + 256 * (2 ^ 4 * val64 ds)"
      by simp
    have v: "(a + 2 ^ 6 * val64 (d # ds)) mod 256 = (a + 2 ^ 6 * d) mod 256"
            "(a + 2 ^ 6 * val64 (d # ds)) div 256 = (a + 2 ^ 6 * d) div 256 + 2 ^ 4 * val64 ds"
      unfolding e by (simp_all only: divmod256_add)
    have p: "x div 256 ^ Suc j = x div 256 div 256 ^ j" for x j :: nat
      by (simp add: div_mult2_eq)
    show ?thesis
      unfolding step unfolding 4 n le_bytes.simps p v
      using Cons.IH [of 4 "(a + 2 ^ 6 * d) div 256" "cp @ [of_nat ((a + 2 ^ 6 * d) mod 256)]"] ds
      by simp
  qed
qed

subsection \<open>The accumulators stay within a C int\<close>

text \<open>
  \<open>ac\<close> and \<open>bits\<close> are modelled as unbounded integers. In the encoder a byte is
  added with 0, 2 or 4 bits pending and \<open>ac\<close> below \<open>2 ^ bits\<close>; the sum is below
  \<open>2\<^sup>1\<^sup>2\<close> and the inner loop restores the invariant. In the decoder a character is
  added with 0, 2, 4 or 6 bits pending; the sum is below \<open>2\<^sup>1\<^sup>2\<close> and the state passed
  on by \<open>dec_step\<close> satisfies the invariant again. So no 32-bit operation overflows.
\<close>

lemma enc_byte_bounded:
  assumes r: "r = 0 \<or> r = 2 \<or> r = 4" and a: "a < 2 ^ r"
  shows "int a + push_bit r (uint b) < 2 ^ 12
       \<and> (case enc_byte (int a, int r, cp) b of
            (ac', bits', cp') \<Rightarrow>
              0 \<le> ac' \<and> (bits' = 0 \<or> bits' = 2 \<or> bits' = 4) \<and> ac' < 2 ^ nat bits')"
proof -
  have b: "unat b < 256"
    using unsigned_less [of b, where ?'a = nat] by simp
  have u: "int a + push_bit r (uint b) = int (a + 2 ^ r * unat b)"
    by (simp add: push_bit_eq_mult)
  have c1: "int a + push_bit r (uint b) < 2 ^ 12" if "a + 2 ^ r * unat b < 4096"
  proof -
    from that have "int (a + 2 ^ r * unat b) < int 4096"
      by (simp only: of_nat_less_iff)
    then show ?thesis
      by (simp only: u) simp
  qed
  from r consider "r = 0" | "r = 2" | "r = 4" by blast
  then show ?thesis
  proof cases
    case 1
    with a b have lt: "a + 2 ^ r * unat b < 4096"
      by simp
    from 1 a b have "(a + unat b) div 64 < 4"
      by simp
    then have "case enc_byte (int a, int r, cp) b of
            (ac', bits', cp') \<Rightarrow>
              0 \<le> ac' \<and> (bits' = 0 \<or> bits' = 2 \<or> bits' = 4) \<and> ac' < 2 ^ nat bits'"
      using 1 by (simp add: enc_byte_0)
    with c1 [OF lt] show ?thesis ..
  next
    case 2
    with a b have lt: "a + 2 ^ r * unat b < 4096"
      by simp
    from 2 a b have "(a + 4 * unat b) div 64 < 16"
      by simp
    then have "case enc_byte (int a, int r, cp) b of
            (ac', bits', cp') \<Rightarrow>
              0 \<le> ac' \<and> (bits' = 0 \<or> bits' = 2 \<or> bits' = 4) \<and> ac' < 2 ^ nat bits'"
      using 2 by (simp add: enc_byte_2)
    with c1 [OF lt] show ?thesis ..
  next
    case 3
    with a b have lt: "a + 2 ^ r * unat b < 4096"
      by simp
    from 3 a b have "(a + 16 * unat b) div 64 div 64 < 1"
      by (simp add: div_mult2_eq [symmetric])
    then have "case enc_byte (int a, int r, cp) b of
            (ac', bits', cp') \<Rightarrow>
              0 \<le> ac' \<and> (bits' = 0 \<or> bits' = 2 \<or> bits' = 4) \<and> ac' < 2 ^ nat bits'"
      using 3 by (simp add: enc_byte_4)
    with c1 [OF lt] show ?thesis ..
  qed
qed

lemma dec_step_bounded:
  fixes a d r :: nat
  assumes r: "r = 0 \<or> r = 2 \<or> r = 4 \<or> r = 6" and a: "a < 2 ^ r" and d: "d < 64"
  shows "a + 2 ^ r * d < 2 ^ 12
       \<and> (if 2 \<le> r then (a + 2 ^ r * d) div 256 < 2 ^ (r - 2) else a + 2 ^ r * d < 2 ^ (r + 6))"
proof -
  from r consider "r = 0" | "r = 2" | "r = 4" | "r = 6" by blast
  then show ?thesis
    using a d by cases simp_all
qed

subsection \<open>Decoding an encoded buffer\<close>

lemma digits64_lt: "\<forall>d\<in>set (digits64 m v). d < 64"
  by (induction m arbitrary: v) simp_all

lemma length_digits64: "length (digits64 m v) = m"
  by (induction m arbitrary: v) simp_all

lemma val64_digits64: "val64 (digits64 m v) = v mod 64 ^ m"
proof (induction m arbitrary: v)
  case 0
  then show ?case by simp
next
  case (Suc m)
  have "v mod (64 * 64 ^ m) = 64 * (v div 64 mod 64 ^ m) + v mod 64"
    by (rule mod_mult2_eq)
  with Suc.IH [of "v div 64"] show ?case by simp
qed

lemma digits64_nth: "digits64 m v = map (\<lambda>k. v div 64 ^ k mod 64) [0..<m]"
proof (induction m arbitrary: v)
  case 0
  then show ?case by simp
next
  case (Suc m)
  have "map (\<lambda>k. v div 64 ^ k mod 64) [0..<Suc m] =
        (v mod 64) # map (\<lambda>k. v div 64 ^ Suc k mod 64) [0..<m]"
    by (simp only: upt_conv_Cons [OF zero_less_Suc] list.map map_Suc_upt [symmetric] map_map o_def) simp
  also have "\<dots> = (v mod 64) # map (\<lambda>k. v div 64 div 64 ^ k mod 64) [0..<m]"
    by (simp add: div_mult2_eq)
  finally show ?case using Suc.IH [of "v div 64"] by simp
qed

lemma le_val_lt: "le_val src < 256 ^ length src"
proof (induction src)
  case Nil
  then show ?case by simp
next
  case (Cons b src)
  have "unat b < 256" using unsigned_less [of b, where ?'a = nat] by simp
  with Cons.IH show ?case by simp
qed

lemma le_bytes_le_val: "le_bytes (length src) (le_val src) = src"
proof (induction src)
  case Nil
  then show ?case by simp
next
  case (Cons b src)
  have b: "unat b < 256" using unsigned_less [of b, where ?'a = nat] by simp
  then have "(unat b + 256 * le_val src) mod 256 = unat b"
    and "(unat b + 256 * le_val src) div 256 = le_val src"
    by simp_all
  with Cons.IH show ?case by simp
qed

lemma chars_arith:
  "(8 * n + 5) div 6 = BASE64_CHARS n"
  "(6 * BASE64_CHARS n) div 8 = n"
  "8 * n \<le> 6 * BASE64_CHARS n"
  unfolding BASE64_CHARS_def by arith+

lemma base64_encode_digits:
  "base64_encode src = map ((!) lookup_table) (digits64 (BASE64_CHARS (length src)) (le_val src))"
  using enc_general [of 0 0 "[]" src]
  by (simp add: base64_encode_def chars_arith(1))

lemma base64_decode_encode: "base64_decode (base64_encode src) = Inr src"
proof -
  let ?n = "length src" and ?v = "le_val src"
  let ?m = "BASE64_CHARS ?n"
  have "(256::nat) ^ ?n = 2 ^ (8 * ?n)" "(64::nat) ^ ?m = 2 ^ (6 * ?m)"
    by (simp_all add: power_mult)
  with chars_arith(3) [of ?n] have "(256::nat) ^ ?n \<le> 64 ^ ?m"
    by (simp only: power_increasing)
  with le_val_lt [of src] have small: "?v mod 64 ^ ?m = ?v"
    by simp
  have "base64_decode_loop (map ((!) lookup_table) (digits64 ?m ?v)) (int 0) (int 0) [] =
        Inr (int ((0 + 2 ^ 0 * val64 (digits64 ?m ?v)) div 256 ^ ((0 + 6 * length (digits64 ?m ?v)) div 8)),
             [] @ le_bytes ((0 + 6 * length (digits64 ?m ?v)) div 8) (0 + 2 ^ 0 * val64 (digits64 ?m ?v)))"
    by (rule dec_general) (simp, rule digits64_lt)
  then have "base64_decode_loop (base64_encode src) 0 0 [] = Inr (int (?v div 256 ^ ?n), le_bytes ?n ?v)"
    by (simp only: base64_encode_digits length_digits64 val64_digits64 small add_0 power_0 mult_1
          chars_arith(2) append_Nil) simp
  moreover have "?v div 256 ^ ?n = 0"
    using le_val_lt [of src] by simp
  ultimately show ?thesis
    by (simp add: base64_decode_def le_bytes_le_val)
qed

lemma length_base64_encode: "length (base64_encode src) = BASE64_CHARS (length src)"
  by (simp add: base64_encode_digits length_digits64)

lemma strchr_notin: "c \<notin> set s \<Longrightarrow> c \<noteq> CHR 0x00 \<Longrightarrow> strchr s c = None"
  by (induction s) auto

lemma decode_loop_reject:
  assumes "\<exists>c\<in>set src. c \<notin> set lookup_table"
  shows "base64_decode_loop src ac bits cp = Inl (- 2)"
  using assms
proof (induction src arbitrary: ac bits cp)
  case Nil
  then show ?case by simp
next
  case (Cons c cs)
  show ?case
  proof (cases "c \<in> set lookup_table")
    case True
    with Cons.prems have "\<exists>c\<in>set cs. c \<notin> set lookup_table" by auto
    then show ?thesis
      by (simp add: Cons.IH split: option.split)
  next
    case False
    then show ?thesis
      by (cases "c = CHR 0x00") (simp_all add: strchr_notin split: option.split)
  qed
qed


section \<open>The claims about the encoding\<close>

text \<open>
  C6 (as stated): the no-key encoding takes the bits most-significant-bit-first within
  each accumulated byte group. It does not: for the single byte \<open>0x01\<close> the code writes
  \<open>BA\<close> (the low six bits first), where the most-significant-bit-first encoding writes
  \<open>AQ\<close>.
\<close>

theorem C6_msb_first_counterexample:
  "base64_encode [0x01] = ''BA'' \<and> base64_msb_first [0x01] = ''AQ''
     \<and> base64_encode [0x01] \<noteq> base64_msb_first [0x01]"
proof -
  have code: "base64_encode [0x01] = ''BA''"
    by (simp add: base64_encode_def enc_byte_def enc_emit.simps lookup_table_def)
  have spec: "base64_msb_first [0x01] = ''AQ''"
    by (simp add: base64_msb_first_def BASE64_CHARS_def lookup_table_def upt_rec)
  show ?thesis
    unfolding code spec by simp
qed

text \<open>
  C6 (amended): for every byte sequence, \<^verbatim>\<open>base64_encode\<close> uses the 64-character
  alphabet A-Z a-z 0-9 + , at 6 bits per output character, taking the bits
  least-significant-bit-first: the bytes form one number with the first byte least
  significant, and character \<open>k\<close> is the table entry of bits \<open>6k .. 6k+5\<close> of that
  number. There are \<open>\<lceil>8 n / 6\<rceil>\<close> characters for \<open>n\<close> bytes, so a final partial
  group is emitted when the bit count is not a multiple of 6, and every character comes
  from the table, which does not contain the padding character \<open>=\<close>.
\<close>

theorem C6_base64_encode_lsb_first:
  "base64_encode src =
     map (\<lambda>k. lookup_table ! (le_val src div 64 ^ k mod 64)) [0..<(8 * length src + 5) div 6]
   \<and> set (base64_encode src) \<subseteq> set lookup_table
   \<and> lookup_table = ''ABCDEFGHIJKLMNOPQRSTUVWXYZabcdefghijklmnopqrstuvwxyz0123456789+,''
   \<and> length lookup_table = 64
   \<and> CHR ''='' \<notin> set lookup_table"
proof -
  have enc: "base64_encode src =
      map (\<lambda>k. lookup_table ! (le_val src div 64 ^ k mod 64)) [0..<(8 * length src + 5) div 6]"
    by (simp only: base64_encode_digits digits64_nth chars_arith(1) map_map o_def)
  have "set (base64_encode src) \<subseteq> set lookup_table"
  proof
    fix c
    assume "c \<in> set (base64_encode src)"
    then obtain d where "d \<in> set (digits64 (BASE64_CHARS (length src)) (le_val src))"
      and c: "c = lookup_table ! d"
      unfolding base64_encode_digits by auto
    with digits64_lt have "d < length lookup_table"
      by (simp add: length_lookup_table)
    with c show "c \<in> set lookup_table"
      by simp
  qed
  moreover have "CHR ''='' \<notin> set lookup_table"
    by (simp add: lookup_table_def)
  ultimately show ?thesis
    using enc by (simp add: length_lookup_table) (simp add: lookup_table_def)
qed

theorem C6_base64_encode_lsb_first_witness:
  "base64_encode [0x01, 0xff] = ''B8P''
   \<and> set (base64_encode [0x01, 0xff]) \<subseteq> set lookup_table"
  using C6_base64_encode_lsb_first [of "[0x01, 0xff]"]
  by (simp add: lookup_table_def upt_rec)

text \<open>
  C10: for every byte sequence \<open>b\<close>, decoding the encoding of \<open>b\<close> succeeds and returns
  exactly \<open>b\<close>; the encoded length is \<open>\<lceil>4 |b| / 3\<rceil>\<close>; and \<^verbatim>\<open>base64_decode\<close> rejects
  (with the return value \<open>-2\<close>) every input that contains a character outside the
  64-character alphabet.
\<close>

theorem C10_base64_roundtrip:
  "base64_decode (base64_encode b) = Inr b
   \<and> length (base64_encode b) = (4 * length b + 2) div 3
   \<and> ((\<exists>c\<in>set s. c \<notin> set lookup_table) \<longrightarrow> base64_decode s = Inl (- 2))"
proof -
  have "length (base64_encode b) = (4 * length b + 2) div 3"
    by (simp add: length_base64_encode BASE64_CHARS_def mult.commute)
  moreover have "(\<exists>c\<in>set s. c \<notin> set lookup_table) \<longrightarrow> base64_decode s = Inl (- 2)"
    by (simp add: base64_decode_def decode_loop_reject)
  ultimately show ?thesis
    by (simp add: base64_decode_encode)
qed

theorem C10_base64_roundtrip_witness:
  "(\<exists>c\<in>set ''QUJD=''. c \<notin> set lookup_table)
   \<and> base64_decode ''QUJD='' = Inl (- 2)
   \<and> base64_decode (base64_encode [0x01, 0x02, 0x03, 0xff]) = Inr [0x01, 0x02, 0x03, 0xff]
   \<and> length (base64_encode [0x01, 0x02, 0x03, 0xff]) = 6"
  using C10_base64_roundtrip [of "[0x01, 0x02, 0x03, 0xff]" "''QUJD=''"]
  by (simp add: lookup_table_def)

section \<open>Properties of the policy manager\<close>

lemma policy_of_bytes_policy_bytes: "policy_of_bytes (policy_bytes p) = p"
  by (simp add: policy_of_bytes_def policy_bytes_def)

lemma length_policy_bytes: "policy_wf h p \<Longrightarrow> length (policy_bytes p) = sizeof_policy_v1 h"
  by (simp add: policy_wf_def policy_bytes_def sizeof_policy_v1_def)


lemma policies_equal_refl: "fscrypt_policies_equal h a a"
  by (simp add: fscrypt_policies_equal_def memcmp_eq_def)

lemma policies_equal_sym: "fscrypt_policies_equal h a b = fscrypt_policies_equal h b a"
  by (auto simp: fscrypt_policies_equal_def memcmp_eq_def fscrypt_policy_size_def)


text \<open>
  C7: \<^verbatim>\<open>fscrypt_supported_policy\<close> is a function of the policy and the inode flags alone;
  it returns false for an unknown policy version, for an incompatible content/filename
  mode pair, for any flag bit outside the padding mask and the direct-key bit, whenever
  the direct-key flag is set, and on a casefolded inode; it returns true otherwise.
\<close>

theorem C7_supported_policy:
  "fscrypt_supported_policy h p ino \<longleftrightarrow>
     version p = FSCRYPT_POLICY_V1 h
   \<and> fscrypt_valid_enc_modes h (contents_encryption_mode p) (filenames_encryption_mode p)
   \<and> flags p AND NOT (FSCRYPT_POLICY_FLAGS_PAD_MASK OR FSCRYPT_POLICY_FLAG_DIRECT_KEY h) = 0
   \<and> flags p AND FSCRYPT_POLICY_FLAG_DIRECT_KEY h = 0
   \<and> \<not> IS_CASEFOLDED ino"
  by (simp add: fscrypt_supported_policy_def fscrypt_supported_v1_policy_def)

theorem C7_supported_policy_witness:
  "fscrypt_supported_policy linux_hdr
     \<lparr>version = 0, contents_encryption_mode = 1, filenames_encryption_mode = 4, flags = 0x02,
      master_key_descriptor = [1, 2, 3, 4, 5, 6, 7, 8]\<rparr>
     \<lparr>i_mode = S_IFDIR, IS_ENCRYPTED = False, IS_CASEFOLDED = False, IS_DEADDIR = False,
      i_crypt_info = None\<rparr>
   \<and> \<not> fscrypt_supported_policy linux_hdr
     \<lparr>version = 0, contents_encryption_mode = 1, filenames_encryption_mode = 4, flags = 0x04,
      master_key_descriptor = [1, 2, 3, 4, 5, 6, 7, 8]\<rparr>
     \<lparr>i_mode = S_IFDIR, IS_ENCRYPTED = False, IS_CASEFOLDED = False, IS_DEADDIR = False,
      i_crypt_info = None\<rparr>"
  using C7_supported_policy [of linux_hdr
     "\<lparr>version = 0, contents_encryption_mode = 1, filenames_encryption_mode = 4, flags = 0x02,
      master_key_descriptor = [1, 2, 3, 4, 5, 6, 7, 8]\<rparr>"
     "\<lparr>i_mode = S_IFDIR, IS_ENCRYPTED = False, IS_CASEFOLDED = False, IS_DEADDIR = False,
      i_crypt_info = None\<rparr>"]
    C7_supported_policy [of linux_hdr
     "\<lparr>version = 0, contents_encryption_mode = 1, filenames_encryption_mode = 4, flags = 0x04,
      master_key_descriptor = [1, 2, 3, 4, 5, 6, 7, 8]\<rparr>"
     "\<lparr>i_mode = S_IFDIR, IS_ENCRYPTED = False, IS_CASEFOLDED = False, IS_DEADDIR = False,
      i_crypt_info = None\<rparr>"]
  by (simp add: linux_hdr_def FSCRYPT_POLICY_FLAGS_PAD_MASK_def)

text \<open>
  C8: for every valid policy \<open>p\<close> (supported on some inode, with a key descriptor of the
  declared size), \<^verbatim>\<open>fscrypt_policy_from_context\<close> applied to the context that
  \<^verbatim>\<open>fscrypt_new_context_from_policy\<close> builds from \<open>p\<close> yields \<open>p\<close> again in every
  field, whatever random nonce \<open>rnd\<close> the context received: the nonce exists only in
  the context.
\<close>

theorem C8_policy_context_roundtrip:
  assumes "fscrypt_supported_policy h p ino" and "policy_wf h p"
  shows "fscrypt_policy_from_context h (fst (fscrypt_new_context_from_policy h rnd p))
           (snd (fscrypt_new_context_from_policy h rnd p)) = Inr p"
proof -
  from assms(1) have "version p = FSCRYPT_POLICY_V1 h"
    by (simp add: fscrypt_supported_policy_def split: if_splits)
  with assms(2) show ?thesis
    by (simp add: fscrypt_policy_from_context_def fscrypt_new_context_from_policy_def policy_wf_def)
qed

theorem C8_policy_context_roundtrip_witness:
  "fscrypt_supported_policy linux_hdr ex_policy (ex_inode S_IFDIR False None)
   \<and> policy_wf linux_hdr ex_policy
   \<and> fscrypt_policy_from_context linux_hdr
         (fst (fscrypt_new_context_from_policy linux_hdr (replicate 16 0xa5) ex_policy))
         (snd (fscrypt_new_context_from_policy linux_hdr (replicate 16 0xa5) ex_policy))
       = Inr ex_policy"
proof -
  have s: "fscrypt_supported_policy linux_hdr ex_policy (ex_inode S_IFDIR False None)"
    by (simp add: fscrypt_supported_policy_def fscrypt_supported_v1_policy_def linux_hdr_def
          ex_policy_def ex_inode_def FSCRYPT_POLICY_FLAGS_PAD_MASK_def)
  have w: "policy_wf linux_hdr ex_policy"
    by (simp add: policy_wf_def linux_hdr_def ex_policy_def)
  show ?thesis
    using s w C8_policy_context_roundtrip [OF s w, of "replicate 16 0xa5"] by simp
qed

text \<open>
  C9: \<^verbatim>\<open>fscrypt_policies_equal\<close> is reflexive and symmetric, returns false whenever the
  versions differ, and otherwise returns true exactly when every byte within the
  version-determined policy size is equal.
\<close>

theorem C9_policies_equal:
  assumes "policy_wf h a" and "policy_wf h b"
  shows "fscrypt_policies_equal h a a
       \<and> fscrypt_policies_equal h a b = fscrypt_policies_equal h b a
       \<and> (version a \<noteq> version b \<longrightarrow> \<not> fscrypt_policies_equal h a b)
       \<and> (version a = version b \<longrightarrow>
            (fscrypt_policies_equal h a b \<longleftrightarrow>
              (\<forall>i < fscrypt_policy_size h a. policy_bytes a ! i = policy_bytes b ! i)))"
proof -
  have le: "fscrypt_policy_size h a \<le> length (policy_bytes a)"
           "fscrypt_policy_size h a \<le> length (policy_bytes b)"
    using assms by (simp_all add: fscrypt_policy_size_def length_policy_bytes)
  have "take n xs = take n ys \<longleftrightarrow> (\<forall>i<n. xs ! i = ys ! i)"
    if "n \<le> length xs" "n \<le> length ys" for n and xs ys :: "u8 list"
  proof
    assume eq: "take n xs = take n ys"
    show "\<forall>i<n. xs ! i = ys ! i"
    proof (intro allI impI)
      fix i
      assume i: "i < n"
      then have "take n xs ! i = xs ! i" "take n ys ! i = ys ! i"
        by simp_all
      with eq show "xs ! i = ys ! i"
        by simp
    qed
  next
    assume "\<forall>i<n. xs ! i = ys ! i"
    then show "take n xs = take n ys"
      using that by (intro nth_take_lemma) simp_all
  qed
  from this [OF le] have "version a = version b \<longrightarrow>
            (fscrypt_policies_equal h a b \<longleftrightarrow>
              (\<forall>i < fscrypt_policy_size h a. policy_bytes a ! i = policy_bytes b ! i))"
    by (simp add: fscrypt_policies_equal_def memcmp_eq_def)
  moreover have "version a \<noteq> version b \<longrightarrow> \<not> fscrypt_policies_equal h a b"
    by (simp add: fscrypt_policies_equal_def)
  ultimately show ?thesis
    using policies_equal_refl [of h a] policies_equal_sym [of h a b] by blast
qed


theorem C9_policies_equal_witness:
  "policy_wf linux_hdr ex_policy \<and> policy_wf linux_hdr ex_policy2
   \<and> version ex_policy = version ex_policy2
   \<and> fscrypt_policies_equal linux_hdr ex_policy ex_policy
   \<and> \<not> fscrypt_policies_equal linux_hdr ex_policy ex_policy2
   \<and> \<not> (\<forall>i < fscrypt_policy_size linux_hdr ex_policy.
            policy_bytes ex_policy ! i = policy_bytes ex_policy2 ! i)"
proof -
  have w: "policy_wf linux_hdr ex_policy" "policy_wf linux_hdr ex_policy2"
    by (simp_all add: policy_wf_def linux_hdr_def ex_policy_def ex_policy2_def)
  have v: "version ex_policy = version ex_policy2"
    by (simp add: ex_policy_def ex_policy2_def)
  have n: "\<not> fscrypt_policies_equal linux_hdr ex_policy ex_policy2"
    by (simp add: fscrypt_policies_equal_def memcmp_eq_def fscrypt_policy_size_def
          sizeof_policy_v1_def policy_bytes_def linux_hdr_def ex_policy_def ex_policy2_def)
  show ?thesis
    using w v n C9_policies_equal [OF w] by blast
qed

lemma take_policy_bytes:
  "policy_wf h p \<Longrightarrow> take (sizeof_policy_v1 h) (policy_bytes p @ rest) = policy_bytes p"
  by (simp add: length_policy_bytes)

lemma set_policy_existing:
  assumes "fscrypt_get_policy h cop (f_inode filp) = Inr existing"
    and "inode_owner_or_capable filp" and "mnt_want_write_file filp = None"
    and "version p = FSCRYPT_POLICY_V1 h" and "policy_wf h p"
  shows "fscrypt_ioctl_set_policy h cop rnd filp (policy_bytes p @ rest) =
           (if fscrypt_policies_equal h p existing then Inr None else Inl EEXIST)"
proof -
  have hd: "policy_bytes p @ rest = version p # tl (policy_bytes p @ rest)"
    by (simp add: policy_bytes_def)
  have sz: "fscrypt_policy_size h \<lparr>version = version p, contents_encryption_mode = 0,
               filenames_encryption_mode = 0, flags = 0, master_key_descriptor = []\<rparr>
            = sizeof_policy_v1 h"
    using assms(4) by (simp add: fscrypt_policy_size_def)
  have pos: "0 < sizeof_policy_v1 h" "\<not> length (policy_bytes p @ rest) < sizeof_policy_v1 h"
    using assms(5) by (simp_all add: sizeof_policy_v1_def length_policy_bytes)
  have pol: "(policy_of_bytes (take (sizeof_policy_v1 h) (policy_bytes p @ rest)))\<lparr>version := version p\<rparr> = p"
    by (simp only: take_policy_bytes [OF assms(5)] policy_of_bytes_policy_bytes) simp
  show ?thesis
    apply (subst hd)
    apply (simp only: fscrypt_ioctl_set_policy_def Let_def list.case sz)
    apply (simp only: hd [symmetric] pol)
    using assms(1-3) pos by simp
qed

text \<open>
  C1 (as stated): on an inode that already carries a policy, \<^verbatim>\<open>fscrypt_ioctl_set_policy\<close>
  with a byte-identical policy returns ``already exists'' and never success. It does
  not: on a directory whose cached policy is \<open>ex_policy\<close>, setting \<open>ex_policy\<close> again
  returns 0 and stores nothing.
\<close>

theorem C1_identical_policy_counterexample:
  "fscrypt_get_policy linux_hdr ex_cop (f_inode (ex_file (ex_inode S_IFDIR True (Some ex_policy))))
     = Inr ex_policy
   \<and> fscrypt_ioctl_set_policy linux_hdr ex_cop (replicate 16 0xa5)
       (ex_file (ex_inode S_IFDIR True (Some ex_policy))) (policy_bytes ex_policy) = Inr None
   \<and> fscrypt_ioctl_set_policy linux_hdr ex_cop (replicate 16 0xa5)
       (ex_file (ex_inode S_IFDIR True (Some ex_policy))) (policy_bytes ex_policy) \<noteq> Inl EEXIST"
  by (simp add: fscrypt_ioctl_set_policy_def fscrypt_get_policy_def fscrypt_policies_equal_def
        memcmp_eq_def fscrypt_policy_size_def sizeof_policy_v1_def policy_bytes_def
        policy_of_bytes_def linux_hdr_def ex_policy_def ex_inode_def ex_file_def ex_cop_def)

text \<open>
  C1 (amended): for every inode that already carries an encryption policy, and a caller
  who owns the inode and gets write access, \<^verbatim>\<open>fscrypt_ioctl_set_policy\<close> with a V1 policy
  byte-identical to the existing one returns success (0) without storing a context; it
  returns ``already exists'' when the policy differs from the existing one.
\<close>

theorem C1_set_policy_existing:
  assumes "fscrypt_get_policy h cop (f_inode filp) = Inr existing"
    and "inode_owner_or_capable filp" and "mnt_want_write_file filp = None"
    and "version p = FSCRYPT_POLICY_V1 h" and "policy_wf h p"
  shows "(p = existing \<longrightarrow>
            fscrypt_ioctl_set_policy h cop rnd filp (policy_bytes p @ rest) = Inr None)
       \<and> (\<not> fscrypt_policies_equal h p existing \<longrightarrow>
            fscrypt_ioctl_set_policy h cop rnd filp (policy_bytes p @ rest) = Inl EEXIST)"
  using set_policy_existing [OF assms, of rnd rest] policies_equal_refl [of h p]
  by auto


theorem C1_set_policy_existing_witness:
  "fscrypt_get_policy linux_hdr ex_cop (f_inode (ex_file (ex_inode S_IFDIR True (Some ex_policy))))
     = Inr ex_policy
   \<and> inode_owner_or_capable (ex_file (ex_inode S_IFDIR True (Some ex_policy)))
   \<and> mnt_want_write_file (ex_file (ex_inode S_IFDIR True (Some ex_policy))) = None
   \<and> version ex_policy = FSCRYPT_POLICY_V1 linux_hdr \<and> policy_wf linux_hdr ex_policy
   \<and> version ex_policy2 = FSCRYPT_POLICY_V1 linux_hdr \<and> policy_wf linux_hdr ex_policy2
   \<and> \<not> fscrypt_policies_equal linux_hdr ex_policy2 ex_policy
   \<and> fscrypt_ioctl_set_policy linux_hdr ex_cop (replicate 16 0xa5)
        (ex_file (ex_inode S_IFDIR True (Some ex_policy))) (policy_bytes ex_policy @ []) = Inr None
   \<and> fscrypt_ioctl_set_policy linux_hdr ex_cop (replicate 16 0xa5)
        (ex_file (ex_inode S_IFDIR True (Some ex_policy))) (policy_bytes ex_policy2 @ []) = Inl EEXIST"
proof -
  let ?f = "ex_file (ex_inode S_IFDIR True (Some ex_policy))"
  have g: "fscrypt_get_policy linux_hdr ex_cop (f_inode ?f) = Inr ex_policy"
    by (simp add: fscrypt_get_policy_def ex_file_def ex_inode_def)
  have o: "inode_owner_or_capable ?f" and m: "mnt_want_write_file ?f = None"
    by (simp_all add: ex_file_def)
  have v: "version ex_policy = FSCRYPT_POLICY_V1 linux_hdr"
          "version ex_policy2 = FSCRYPT_POLICY_V1 linux_hdr"
    by (simp_all add: ex_policy_def ex_policy2_def linux_hdr_def)
  have w: "policy_wf linux_hdr ex_policy" "policy_wf linux_hdr ex_policy2"
    by (simp_all add: policy_wf_def linux_hdr_def ex_policy_def ex_policy2_def)
  have n: "\<not> fscrypt_policies_equal linux_hdr ex_policy2 ex_policy"
    by (simp add: fscrypt_policies_equal_def memcmp_eq_def fscrypt_policy_size_def
          sizeof_policy_v1_def policy_bytes_def linux_hdr_def ex_policy_def ex_policy2_def)
  show ?thesis
    using g o m v w n
      C1_set_policy_existing [OF g o m v(1) w(1), of "replicate 16 0xa5" "[]"]
      C1_set_policy_existing [OF g o m v(2) w(2), of "replicate 16 0xa5" "[]"]
    by blast
qed



section \<open>Properties of the padded length\<close>

lemma padding_cases:
  obtains n where "n \<in> {2, 3, 4, 5}" "fname_padding ci = 2 ^ n"
proof -
  have "unat (ci_flags ci AND 3) \<le> unat (3 :: u8)"
    by (rule word_and_le1 [THEN word_le_nat_alt [THEN iffD1]])
  then have k: "unat (ci_flags ci AND 3) \<le> 3"
    by simp
  have "fname_padding ci = 2 ^ (unat (ci_flags ci AND 3) + 2)"
    by (simp add: fname_padding_def FSCRYPT_POLICY_FLAGS_PAD_MASK_def push_bit_eq_mult)
  moreover from k have "unat (ci_flags ci AND 3) + 2 \<in> {2, 3, 4, 5}"
    by auto
  ultimately show ?thesis
    using that by blast
qed

lemma round_up_eq:
  "round_up x (2 ^ n) = push_bit n (drop_bit n (x - 1) + 1)"
proof -
  let ?y = "x - 1" and ?m = "mask n :: u32"
  have m: "word_of_int (2 ^ n - 1) = ?m"
    by (simp add: mask_eq_exp_minus_1)
  have a: "(?y AND ?m) + (?y OR ?m) = ?y + ?m"
    by (rule word_plus_and_or)
  have b: "push_bit n (drop_bit n ?y) + (?y AND ?m) = ?y"
    using bits_ident [of n ?y] by (simp add: take_bit_eq_mask)
  have d: "push_bit n (drop_bit n ?y + 1) = push_bit n (drop_bit n ?y) + 2 ^ n"
    by (simp add: push_bit_add)
  have e: "?m + 1 = 2 ^ n"
    by (simp add: mask_eq_exp_minus_1)
  have "(?y OR ?m) + 1 = (?y + ?m) - (?y AND ?m) + 1"
    using a by (simp add: algebra_simps)
  also have "\<dots> = (push_bit n (drop_bit n ?y) + (?y AND ?m)) - (?y AND ?m) + (?m + 1)"
    by (simp only: b) (simp add: algebra_simps)
  also have "\<dots> = push_bit n (drop_bit n ?y) + 2 ^ n"
    by (simp add: e)
  finally show ?thesis
    unfolding round_up_def d by (simp add: mask_eq_exp_minus_1)
qed

lemma round_up_dvd:
  assumes "n \<le> 32"
  shows "2 ^ n dvd unat (round_up x (2 ^ n))"
proof -
  have "unat (push_bit n w) = push_bit n (take_bit (32 - n) (unat w))" for w :: u32
    by (simp add: unsigned_push_bit_eq take_bit_push_bit)
  then show ?thesis
    by (simp add: round_up_eq push_bit_eq_mult)
qed


lemma round_up_0: "round_up 0 y = 0"
  by (simp add: round_up_def)

lemma unat_round_up:
  assumes n: "n < 32" and fit: "unat x + 2 ^ n \<le> 2 ^ 32"
  shows "unat (round_up x (2 ^ n)) = ((unat x + 2 ^ n - 1) div 2 ^ n) * 2 ^ n"
proof (cases "x = 0")
  case True
  have "((2::nat) ^ n - 1) div 2 ^ n = 0"
    by simp
  with True show ?thesis
    by (simp add: round_up_0)
next
  case False
  let ?p = "(2::nat) ^ n"
  let ?q = "(unat x - 1) div ?p"
  from False have pos: "0 < unat x"
    by (simp add: unat_gt_0)
  have y: "unat (x - 1) = unat x - 1"
    using False by (simp add: unat_minus_one)
  have "unat (drop_bit n (x - 1)) = drop_bit n (unat (x - 1))"
    by (rule unat_drop_bit_eq)
  then have d: "unat (drop_bit n (x - 1)) = ?q"
    by (simp only: y drop_bit_eq_div)
  have qp: "?q * ?p \<le> unat x - 1"
    by (rule div_times_less_eq_dividend)
  have e: "(?q + 1) * ?p = ?q * ?p + ?p"
    by (simp add: algebra_simps)
  from fit have fit': "unat x + ?p \<le> 4294967296"
    by simp
  from qp fit' pos have bound: "(?q + 1) * ?p < 4294967296"
    unfolding e by linarith
  have "(?q + 1) * 1 \<le> (?q + 1) * ?p"
    by (rule mult_le_mono2) simp
  then have "?q + 1 \<le> (?q + 1) * ?p"
    by (simp only: mult_1_right)
  with bound have q1: "?q + 1 < 2 ^ 32"
    by simp
  have s: "unat (drop_bit n (x - 1) + 1) = ?q + 1"
    using q1 d by (simp add: unat_add_lem [THEN iffD1])
  have "unat (push_bit n (drop_bit n (x - 1) + 1)) =
        take_bit LENGTH(32) (push_bit n (unat (drop_bit n (x - 1) + 1)))"
    by (rule unsigned_push_bit_eq)
  also have "\<dots> = take_bit 32 ((?q + 1) * ?p)"
    by (simp only: s push_bit_eq_mult) simp
  also have "\<dots> = (?q + 1) * ?p"
    using bound by (simp add: take_bit_nat_eq_self)
  finally have r: "unat (round_up x (2 ^ n)) = (?q + 1) * ?p"
    by (simp add: round_up_eq)
  have "unat x + ?p - 1 = (unat x - 1) + ?p"
    using pos by simp
  moreover have "((unat x - 1) + ?p) div ?p = ?q + 1"
    by (rule div_add_self2) simp
  ultimately have "(unat x + ?p - 1) div ?p = ?q + 1"
    by (simp only:)
  with r show ?thesis
    by (simp only:)
qed

lemma round_up_ge:
  assumes "n < 32" "unat x + 2 ^ n \<le> 2 ^ 32"
  shows "x \<le> round_up x (2 ^ n)"
proof -
  let ?p = "(2::nat) ^ n"
  have "unat x + ?p - 1 < ((unat x + ?p - 1) div ?p) * ?p + ?p"
    using dividend_less_div_times [of ?p "unat x + ?p - 1"] by simp
  then have "unat x \<le> ((unat x + ?p - 1) div ?p) * ?p"
    by simp
  then show ?thesis
    by (simp add: word_le_nat_alt unat_round_up [OF assms])
qed

lemma round_up_mono:
  assumes "n < 32" "unat x2 + 2 ^ n \<le> 2 ^ 32" "x1 \<le> x2"
  shows "round_up x1 (2 ^ n) \<le> round_up x2 (2 ^ n)"
proof -
  from assms(3) have le: "unat x1 \<le> unat x2"
    by (simp add: word_le_nat_alt)
  with assms(2) have fit1: "unat x1 + 2 ^ n \<le> 2 ^ 32"
    by simp
  from le have "(unat x1 + 2 ^ n - 1) div 2 ^ n \<le> (unat x2 + 2 ^ n - 1) div 2 ^ n"
    by (intro div_le_mono) simp
  then show ?thesis
    by (simp add: word_le_nat_alt unat_round_up [OF assms(1) fit1]
          unat_round_up [OF assms(1,2)])
qed


lemma encrypted_size_Some:
  "fscrypt_fname_encrypted_size h ci orig_len max_len = Some len \<longleftrightarrow>
     orig_len \<le> max_len
     \<and> len = min (round_up (max orig_len (FS_CRYPTO_BLOCK_SIZE h)) (fname_padding ci)) max_len"
  by (auto simp: fscrypt_fname_encrypted_size_def)

lemma pow_le_32:
  assumes "n \<in> {2, 3, 4, 5}"
  shows "n < 32" and "(2::nat) ^ n \<le> 32"
  using assms by auto

text \<open>
  C5 (as stated): when the raw length does not exceed the maximum, the output of
  \<^verbatim>\<open>fscrypt_fname_encrypted_size\<close> is always a multiple of the padding granularity and at
  least one cipher block. It is not: with padding 4, a raw length of 5 and a maximum of
  10, the rounded length 16 is clamped to 10, which is neither a multiple of 4 nor a
  full 16-byte block.
\<close>

theorem C5_encrypted_size_counterexample:
  "fscrypt_fname_encrypted_size linux_hdr (ex_ci 0) 5 10 = Some 10
   \<and> fname_padding (ex_ci 0) = 4
   \<and> \<not> (4::nat) dvd unat (10::u32)
   \<and> (10::u32) < FS_CRYPTO_BLOCK_SIZE linux_hdr"
  by (simp add: fscrypt_fname_encrypted_size_def fname_padding_def round_up_def
        FSCRYPT_POLICY_FLAGS_PAD_MASK_def linux_hdr_def ex_ci_def)

text \<open>
  C5 (amended): for every padding selector and maximum length,
  \<^verbatim>\<open>fscrypt_fname_encrypted_size\<close> returns ``too long'' exactly when the raw length exceeds
  the maximum. Otherwise its output never exceeds the maximum, and it is the padded
  length, that is the larger of the raw length and one cipher block rounded up to the
  padding granularity (4, 8, 16 or 32), whenever the padded length fits within the
  maximum; the padded length is a multiple of the granularity. The output is the
  maximum itself only when the padded length exceeds it. When the raw length and the
  block size are at most \<open>2\<^sup>3\<^sup>2 - 32\<close>, so that rounding up stays within 32 bits, the
  padded length is the least multiple of the granularity that is at least the raw length
  and one cipher block, and the output is monotonic non-decreasing in the raw length.
\<close>

theorem C5_encrypted_size:
  "(fscrypt_fname_encrypted_size h ci orig_len max_len = None \<longleftrightarrow> max_len < orig_len)
   \<and> fname_padding ci \<in> {4, 8, 16, 32}
   \<and> fname_padding ci
        dvd uint (round_up (max orig_len (FS_CRYPTO_BLOCK_SIZE h)) (fname_padding ci))
   \<and> (\<forall>len. fscrypt_fname_encrypted_size h ci orig_len max_len = Some len \<longrightarrow> len \<le> max_len)
   \<and> (orig_len \<le> max_len \<longrightarrow>
        (round_up (max orig_len (FS_CRYPTO_BLOCK_SIZE h)) (fname_padding ci) \<le> max_len \<longrightarrow>
           fscrypt_fname_encrypted_size h ci orig_len max_len
             = Some (round_up (max orig_len (FS_CRYPTO_BLOCK_SIZE h)) (fname_padding ci)))
      \<and> (max_len < round_up (max orig_len (FS_CRYPTO_BLOCK_SIZE h)) (fname_padding ci) \<longrightarrow>
           fscrypt_fname_encrypted_size h ci orig_len max_len = Some max_len))
   \<and> (unat orig_len + 32 \<le> 2 ^ 32 \<and> unat (FS_CRYPTO_BLOCK_SIZE h) + 32 \<le> 2 ^ 32 \<longrightarrow>
        unat (round_up (max orig_len (FS_CRYPTO_BLOCK_SIZE h)) (fname_padding ci))
          = (max (unat orig_len) (unat (FS_CRYPTO_BLOCK_SIZE h)) + nat (fname_padding ci) - 1)
              div nat (fname_padding ci) * nat (fname_padding ci)
      \<and> FS_CRYPTO_BLOCK_SIZE h
          \<le> round_up (max orig_len (FS_CRYPTO_BLOCK_SIZE h)) (fname_padding ci)
      \<and> orig_len \<le> round_up (max orig_len (FS_CRYPTO_BLOCK_SIZE h)) (fname_padding ci)
      \<and> (\<forall>l1 r1 r2. l1 \<le> orig_len
             \<and> fscrypt_fname_encrypted_size h ci l1 max_len = Some r1
             \<and> fscrypt_fname_encrypted_size h ci orig_len max_len = Some r2 \<longrightarrow> r1 \<le> r2))"
proof -
  obtain n where n: "n \<in> {2, 3, 4, 5}" and p: "fname_padding ci = 2 ^ n"
    by (rule padding_cases)
  have np: "nat (fname_padding ci) = 2 ^ n"
    by (simp add: p)
  let ?B = "FS_CRYPTO_BLOCK_SIZE h"
  let ?R = "\<lambda>l. round_up (max l ?B) (2 ^ n)"
  have c1: "fscrypt_fname_encrypted_size h ci orig_len max_len = None \<longleftrightarrow> max_len < orig_len"
    by (simp add: fscrypt_fname_encrypted_size_def)
  have c2: "fname_padding ci \<in> {4, 8, 16, 32}"
    using n p by auto
  have c3: "fname_padding ci dvd uint (?R orig_len)"
  proof -
    have "2 ^ n dvd unat (?R orig_len)"
      using n by (intro round_up_dvd) auto
    then have "int (2 ^ n) dvd int (unat (?R orig_len))"
      by (simp only: int_dvd_int_iff)
    then show ?thesis
      by (simp add: p)
  qed
  have c4: "len \<le> max_len"
    if "fscrypt_fname_encrypted_size h ci orig_len max_len = Some len" for len
    using that by (simp add: encrypted_size_Some)
  have e: "fscrypt_fname_encrypted_size h ci orig_len max_len
             = Some (min (?R orig_len) max_len)"
    if "orig_len \<le> max_len"
    using that by (simp add: fscrypt_fname_encrypted_size_def p)
  have c5: "fscrypt_fname_encrypted_size h ci orig_len max_len = Some (?R orig_len)"
    if "orig_len \<le> max_len" "?R orig_len \<le> max_len"
    by (simp only: e [OF that(1)] min.absorb1 [OF that(2)])
  have c6: "fscrypt_fname_encrypted_size h ci orig_len max_len = Some max_len"
    if "orig_len \<le> max_len" "max_len < ?R orig_len"
    by (simp only: e [OF that(1)] min.absorb2 [OF less_imp_le [OF that(2)]])
  have um: "unat (max orig_len ?B) = max (unat orig_len) (unat ?B)"
    by (simp add: max_def word_le_nat_alt)
  have fit': "unat (max orig_len ?B) + 2 ^ n \<le> 2 ^ 32"
    if fit: "unat orig_len + 32 \<le> 2 ^ 32 \<and> unat ?B + 32 \<le> 2 ^ 32"
    using fit pow_le_32(2) [OF n] by (simp add: um max_def split: if_splits)
  have c7: "unat (?R orig_len) = (max (unat orig_len) (unat ?B) + 2 ^ n - 1) div 2 ^ n * 2 ^ n"
    if fit: "unat orig_len + 32 \<le> 2 ^ 32 \<and> unat ?B + 32 \<le> 2 ^ 32"
    using unat_round_up [OF pow_le_32(1) [OF n] fit' [OF fit]] by (simp only: um)
  have c8: "?B \<le> ?R orig_len" "orig_len \<le> ?R orig_len"
    if fit: "unat orig_len + 32 \<le> 2 ^ 32 \<and> unat ?B + 32 \<le> 2 ^ 32"
  proof -
    have "max orig_len ?B \<le> ?R orig_len"
      by (rule round_up_ge [OF pow_le_32(1) [OF n] fit' [OF fit]])
    then show "?B \<le> ?R orig_len" "orig_len \<le> ?R orig_len"
      by simp_all
  qed
  have c9: "r1 \<le> r2"
    if fit: "unat orig_len + 32 \<le> 2 ^ 32 \<and> unat ?B + 32 \<le> 2 ^ 32"
      and l: "l1 \<le> orig_len"
      and r1: "fscrypt_fname_encrypted_size h ci l1 max_len = Some r1"
      and r2: "fscrypt_fname_encrypted_size h ci orig_len max_len = Some r2" for l1 r1 r2
  proof -
    from l have "max l1 ?B \<le> max orig_len ?B"
      by (intro max.mono) simp_all
    then have "?R l1 \<le> ?R orig_len"
      by (rule round_up_mono [OF pow_le_32(1) [OF n] fit' [OF fit]])
    then have "min (?R l1) max_len \<le> min (?R orig_len) max_len"
      by (rule min.mono) simp
    with r1 r2 show ?thesis
      by (simp add: encrypted_size_Some p)
  qed
  have g5: "orig_len \<le> max_len \<longrightarrow>
        (?R orig_len \<le> max_len \<longrightarrow>
           fscrypt_fname_encrypted_size h ci orig_len max_len = Some (?R orig_len))
      \<and> (max_len < ?R orig_len \<longrightarrow>
           fscrypt_fname_encrypted_size h ci orig_len max_len = Some max_len)"
    using c5 c6 by blast
  have g6: "unat orig_len + 32 \<le> 2 ^ 32 \<and> unat ?B + 32 \<le> 2 ^ 32 \<longrightarrow>
        unat (?R orig_len) = (max (unat orig_len) (unat ?B) + 2 ^ n - 1) div 2 ^ n * 2 ^ n
      \<and> ?B \<le> ?R orig_len
      \<and> orig_len \<le> ?R orig_len
      \<and> (\<forall>l1 r1 r2. l1 \<le> orig_len
             \<and> fscrypt_fname_encrypted_size h ci l1 max_len = Some r1
             \<and> fscrypt_fname_encrypted_size h ci orig_len max_len = Some r2 \<longrightarrow> r1 \<le> r2)"
  proof (intro impI conjI allI)
    assume fit: "unat orig_len + 32 \<le> 2 ^ 32 \<and> unat ?B + 32 \<le> 2 ^ 32"
    show "unat (?R orig_len) = (max (unat orig_len) (unat ?B) + 2 ^ n - 1) div 2 ^ n * 2 ^ n"
      by (rule c7 [OF fit])
    show "?B \<le> ?R orig_len"
      by (rule c8(1) [OF fit])
    show "orig_len \<le> ?R orig_len"
      by (rule c8(2) [OF fit])
    fix l1 r1 r2
    assume "l1 \<le> orig_len
             \<and> fscrypt_fname_encrypted_size h ci l1 max_len = Some r1
             \<and> fscrypt_fname_encrypted_size h ci orig_len max_len = Some r2"
    then show "r1 \<le> r2"
      using c9 [OF fit] by blast
  qed
  have g4: "\<forall>len. fscrypt_fname_encrypted_size h ci orig_len max_len = Some len \<longrightarrow> len \<le> max_len"
    using c4 by blast
  from c2 have g2: "(2::int) ^ n \<in> {4, 8, 16, 32}"
    by (simp only: p)
  from c3 have g3: "(2::int) ^ n dvd uint (?R orig_len)"
    by (simp only: p)
  show ?thesis
    unfolding np unfolding p
    by (intro conjI c1 g2 g3 g4 g5 g6)
qed

theorem C5_encrypted_size_witness:
  "unat (17::u32) + 32 \<le> 2 ^ 32 \<and> unat (FS_CRYPTO_BLOCK_SIZE linux_hdr) + 32 \<le> 2 ^ 32
   \<and> (5::u32) \<le> 17 \<and> (17::u32) \<le> 255 \<and> (5::u32) \<le> 10
   \<and> round_up (max 17 (FS_CRYPTO_BLOCK_SIZE linux_hdr)) (fname_padding (ex_ci 1)) = 24
   \<and> round_up (max 17 (FS_CRYPTO_BLOCK_SIZE linux_hdr)) (fname_padding (ex_ci 1)) \<le> 255
   \<and> round_up (max 5 (FS_CRYPTO_BLOCK_SIZE linux_hdr)) (fname_padding (ex_ci 0)) = 16
   \<and> 10 < round_up (max 5 (FS_CRYPTO_BLOCK_SIZE linux_hdr)) (fname_padding (ex_ci 0))
   \<and> fscrypt_fname_encrypted_size linux_hdr (ex_ci 1) 5 255 = Some 16
   \<and> fscrypt_fname_encrypted_size linux_hdr (ex_ci 1) 17 255 = Some 24
   \<and> fscrypt_fname_encrypted_size linux_hdr (ex_ci 0) 5 10 = Some 10
   \<and> (16::u32) \<le> 24"
proof -
  note defs = fscrypt_fname_encrypted_size_def fname_padding_def round_up_def
    FSCRYPT_POLICY_FLAGS_PAD_MASK_def linux_hdr_def ex_ci_def
  have fit: "unat (17::u32) + 32 \<le> 2 ^ 32 \<and> unat (FS_CRYPTO_BLOCK_SIZE linux_hdr) + 32 \<le> 2 ^ 32"
    by (simp add: linux_hdr_def)
  have le: "(5::u32) \<le> 17" "(17::u32) \<le> 255" "(5::u32) \<le> 10"
    by simp_all
  have v1: "round_up (max 17 (FS_CRYPTO_BLOCK_SIZE linux_hdr)) (fname_padding (ex_ci 1)) = 24"
    by (simp add: defs)
  have v2: "round_up (max 5 (FS_CRYPTO_BLOCK_SIZE linux_hdr)) (fname_padding (ex_ci 0)) = 16"
    by (simp add: defs)
  have f1: "round_up (max 17 (FS_CRYPTO_BLOCK_SIZE linux_hdr)) (fname_padding (ex_ci 1)) \<le> 255"
    by (simp only: v1) simp
  have f2: "10 < round_up (max 5 (FS_CRYPTO_BLOCK_SIZE linux_hdr)) (fname_padding (ex_ci 0))"
    by (simp only: v2) simp
  have s5: "fscrypt_fname_encrypted_size linux_hdr (ex_ci 1) 5 255 = Some 16"
    by (simp add: defs)
  note t1 = C5_encrypted_size [of linux_hdr "ex_ci 1" 17 255]
  note t2 = C5_encrypted_size [of linux_hdr "ex_ci 0" 5 10]
  note a1 = t1 [THEN conjunct2, THEN conjunct2, THEN conjunct2, THEN conjunct2, THEN conjunct1,
    THEN mp, OF le(2), THEN conjunct1, THEN mp, OF f1]
  note a2 = t2 [THEN conjunct2, THEN conjunct2, THEN conjunct2, THEN conjunct2, THEN conjunct1,
    THEN mp, OF le(3), THEN conjunct2, THEN mp, OF f2]
  note m = t1 [THEN conjunct2, THEN conjunct2, THEN conjunct2, THEN conjunct2, THEN conjunct2,
    THEN mp, OF fit, THEN conjunct2, THEN conjunct2, THEN conjunct2, THEN spec, THEN spec,
    THEN spec, of 5 16 24]
  from a1 have s17: "fscrypt_fname_encrypted_size linux_hdr (ex_ci 1) 17 255 = Some 24"
    by (simp only: v1)
  from m le(1) s5 s17 have mono: "(16::u32) \<le> 24"
    by blast
  show ?thesis
    by (intro conjI fit [THEN conjunct1] fit [THEN conjunct2] le v1 v2 f1 f2 s5 s17 a2 mono)
qed

section \<open>Properties of no-key names\<close>

lemma length_u32_bytes: "length (u32_bytes w) = 4"
  by (simp add: u32_bytes_def)

lemma not_dot_dotdot: "2 < length s \<Longrightarrow> \<not> fscrypt_is_dot_dotdot s"
  by (simp add: fscrypt_is_dot_dotdot_def)

lemma decode_loop_length:
  assumes "0 \<le> bits" "bits < 8" "base64_decode_loop s ac bits cp = Inr (ac', cp')"
  shows "length cp' = length cp + (nat bits + 6 * length s) div 8"
  using assms
proof (induction s arbitrary: ac bits cp)
  case Nil
  then show ?case by simp
next
  case (Cons c cs)
  from Cons.prems(3) obtain p where p: "strchr lookup_table c = Some p" and c: "c \<noteq> CHR 0x00"
    by (auto split: option.splits if_splits)
  show ?case
  proof (cases "bits + 6 \<ge> 8")
    case True
    with Cons.prems p c have
      "base64_decode_loop cs (drop_bit 8 (ac + push_bit (nat bits) (int p))) (bits + 6 - 8)
         (cp @ [word_of_int ((ac + push_bit (nat bits) (int p)) AND 0xff)]) = Inr (ac', cp')"
      by simp
    from Cons.IH [OF _ _ this] Cons.prems(1,2) True
    have "length cp' = length cp + 1 + (nat (bits + 6 - 8) + 6 * length cs) div 8"
      by simp
    moreover from True Cons.prems(1) have "nat bits + 6 * length (c # cs) = 8 + (nat (bits + 6 - 8) + 6 * length cs)"
      by simp
    ultimately show ?thesis
      by simp
  next
    case False
    with Cons.prems p c have
      "base64_decode_loop cs (ac + push_bit (nat bits) (int p)) (bits + 6) cp = Inr (ac', cp')"
      by simp
    from Cons.IH [OF _ _ this] Cons.prems(1) False
    have "length cp' = length cp + (nat (bits + 6) + 6 * length cs) div 8"
      by simp
    moreover from Cons.prems(1) have "nat bits + 6 * length (c # cs) = nat (bits + 6) + 6 * length cs"
      by simp
    ultimately show ?thesis
      by simp
  qed
qed

lemma base64_decode_length:
  assumes "base64_decode s = Inr bs"
  shows "length bs = (6 * length s) div 8"
proof -
  from assms obtain ac where "base64_decode_loop s 0 0 [] = Inr (ac, bs)"
    by (auto simp: base64_decode_def split: sum.splits if_splits)
  from decode_loop_length [OF _ _ this] show ?thesis
    by simp
qed


text \<open>
  C3: for every ciphertext name of at least one cipher block (a block being longer than
  the names \<open>.\<close> and \<open>..\<close>), \<^verbatim>\<open>fscrypt_fname_disk_to_usr\<close> on an inode without a key
  presents the encoding of a no-key record, and decoding the presented name gives that
  record back. For a name of at most 149 bytes the record is the 8-byte dirhash pair
  (zeroed when \<^verbatim>\<open>hash\<close> is 0) followed by exactly the ciphertext bytes, with no digest.
  For a longer name, when the strong hash delivers its 32-byte digest, the record has
  exactly the size \<^verbatim>\<open>FSCRYPT_NOKEY_NAME_MAX\<close>: the dirhash pair, the first 149 ciphertext
  bytes, and the digest of the remaining bytes.
\<close>

theorem C3_disk_to_usr_nokey:
  assumes "i_crypt_info ino = None"
    and "unat (FS_CRYPTO_BLOCK_SIZE h) \<le> length iname"
    and "2 < unat (FS_CRYPTO_BLOCK_SIZE h)"
    and "nokey_dirhash dhash dminor = (d0, d1)"
  shows "length (u32_bytes d0 @ u32_bytes d1) = 8
       \<and> (d0, d1) = (if dhash \<noteq> 0 then (dhash, dminor) else (0, 0))
       \<and> (length iname \<le> 149 \<longrightarrow>
            fscrypt_fname_disk_to_usr h env ino dhash dminor iname
              = Inr (base64_encode (u32_bytes d0 @ u32_bytes d1 @ iname))
          \<and> base64_decode (base64_encode (u32_bytes d0 @ u32_bytes d1 @ iname))
              = Inr (u32_bytes d0 @ u32_bytes d1 @ iname))
       \<and> (149 < length iname \<longrightarrow>
            (\<forall>digest. fscrypt_do_sha256 env (drop 149 iname) = Inr digest \<and> length digest = 32 \<longrightarrow>
               fscrypt_fname_disk_to_usr h env ino dhash dminor iname
                 = Inr (base64_encode (u32_bytes d0 @ u32_bytes d1 @ take 149 iname @ digest))
             \<and> base64_decode (base64_encode (u32_bytes d0 @ u32_bytes d1 @ take 149 iname @ digest))
                 = Inr (u32_bytes d0 @ u32_bytes d1 @ take 149 iname @ digest)
             \<and> length (u32_bytes d0 @ u32_bytes d1 @ take 149 iname @ digest)
                 = FSCRYPT_NOKEY_NAME_MAX))"
proof -
  from assms(2,3) have len: "2 < length iname" "\<not> length iname < unat (FS_CRYPTO_BLOCK_SIZE h)"
    by simp_all
  then have dot: "\<not> fscrypt_is_dot_dotdot (FSTR_TO_QSTR iname)"
    by (intro not_dot_dotdot) (simp add: FSTR_TO_QSTR_def)
  have short: "fscrypt_fname_disk_to_usr h env ino dhash dminor iname
              = Inr (base64_encode (u32_bytes d0 @ u32_bytes d1 @ iname))"
    if "length iname \<le> 149"
    using that dot len(2) assms(1,4)
    by (simp add: fscrypt_fname_disk_to_usr_def sizeof_bytes_def offsetof_bytes_def
          length_u32_bytes)
  have long: "fscrypt_fname_disk_to_usr h env ino dhash dminor iname
                 = Inr (base64_encode (u32_bytes d0 @ u32_bytes d1 @ take 149 iname @ digest))"
    and "length (u32_bytes d0 @ u32_bytes d1 @ take 149 iname @ digest) = FSCRYPT_NOKEY_NAME_MAX"
    if "149 < length iname" "fscrypt_do_sha256 env (drop 149 iname) = Inr digest"
      "length digest = 32" for digest
    using that dot len(2) assms(1,4)
    by (simp_all add: fscrypt_fname_disk_to_usr_def sizeof_bytes_def offsetof_bytes_def
          FSCRYPT_NOKEY_NAME_MAX_def length_u32_bytes)
  have "(d0, d1) = (if dhash \<noteq> 0 then (dhash, dminor) else (0, 0))"
    using assms(4) by (simp add: nokey_dirhash_def)
  with short long show ?thesis
    by (simp add: base64_decode_encode length_u32_bytes FSCRYPT_NOKEY_NAME_MAX_def)
qed

theorem C3_disk_to_usr_nokey_witness:
  "i_crypt_info (ex_inode S_IFDIR True None) = None
   \<and> unat (FS_CRYPTO_BLOCK_SIZE linux_hdr) \<le> length (replicate 200 (0x41::u8))
   \<and> 2 < unat (FS_CRYPTO_BLOCK_SIZE linux_hdr)
   \<and> nokey_dirhash 0xABCD1234 0 = (0xABCD1234, 0)
   \<and> 149 < length (replicate 200 (0x41::u8))
   \<and> fscrypt_do_sha256 ex_env (drop 149 (replicate 200 0x41)) = Inr (replicate 32 0x5a)
   \<and> length (replicate 32 (0x5a::u8)) = 32
   \<and> fscrypt_fname_disk_to_usr linux_hdr ex_env (ex_inode S_IFDIR True None) 0xABCD1234 0
        (replicate 200 0x41)
       = Inr (base64_encode (u32_bytes 0xABCD1234 @ u32_bytes 0 @ take 149 (replicate 200 0x41)
                @ replicate 32 0x5a))
   \<and> base64_decode (base64_encode (u32_bytes 0xABCD1234 @ u32_bytes 0
          @ take 149 (replicate 200 0x41) @ replicate 32 0x5a))
       = Inr (u32_bytes 0xABCD1234 @ u32_bytes 0 @ take 149 (replicate 200 0x41)
                @ replicate 32 0x5a)
   \<and> u32_bytes 0xABCD1234 = [0x34, 0x12, 0xCD, 0xAB]"
proof -
  have h1: "i_crypt_info (ex_inode S_IFDIR True None) = None"
    by (simp add: ex_inode_def)
  have h2: "unat (FS_CRYPTO_BLOCK_SIZE linux_hdr) \<le> length (replicate 200 (0x41::u8))"
    and h3: "2 < unat (FS_CRYPTO_BLOCK_SIZE linux_hdr)"
    by (simp_all add: linux_hdr_def)
  have h4: "nokey_dirhash 0xABCD1234 0 = (0xABCD1234, 0)"
    by (simp add: nokey_dirhash_def)
  have h5: "149 < length (replicate 200 (0x41::u8))"
    by simp
  have h6: "fscrypt_do_sha256 ex_env (drop 149 (replicate 200 0x41)) = Inr (replicate 32 0x5a)"
    by (simp add: fscrypt_do_sha256_def ex_env_def)
  have h7: "length (replicate 32 (0x5a::u8)) = 32"
    by simp
  have h8: "u32_bytes 0xABCD1234 = [0x34, 0x12, 0xCD, 0xAB]"
    by (simp add: u32_bytes_def drop_bit_eq_div)
  show ?thesis
    using h1 h2 h3 h4 h5 h6 h7 h8
      C3_disk_to_usr_nokey [OF h1 h2 h3 h4, where env = ex_env]
    by blast
qed


lemma setup_filename_nokey:
  assumes "IS_ENCRYPTED dir" "\<not> fscrypt_is_dot_dotdot iname"
    and "gei dir = Inr dir'" "i_crypt_info dir' = None"
  shows "fscrypt_setup_filename h cop gei env dir iname lookup =
     (if lookup = 0 then Inl ENOKEY
      else if length iname > BASE64_CHARS FSCRYPT_NOKEY_NAME_MAX then Inl ENOENT
      else if \<not> kmalloc env FSCRYPT_NOKEY_NAME_MAX then Inl ENOMEM
      else case base64_decode iname of
             Inl e \<Rightarrow> if e < 9 \<or> (157 < e \<and> e \<noteq> 189) then Inl ENOENT
                      else Inr \<lparr>usr_fname = iname,
                                disk_name = (if e \<noteq> 189 then Some [] else None),
                                hash = u32_of_bytes [], minor_hash = u32_of_bytes [],
                                crypto_buf = Some [], is_ciphertext_name = True\<rparr>
           | Inr bs \<Rightarrow>
               if length bs < 9 \<or> (157 < length bs \<and> length bs \<noteq> 189) then Inl ENOENT
               else Inr \<lparr>usr_fname = iname,
                         disk_name = (if length bs \<noteq> 189 then Some (drop 8 bs) else None),
                         hash = u32_of_bytes (take 4 bs),
                         minor_hash = u32_of_bytes (take 4 (drop 4 bs)),
                         crypto_buf = Some bs, is_ciphertext_name = True\<rparr>)"
  using assms
  by (auto simp: fscrypt_setup_filename_def Let_def offsetof_bytes_def offsetof_sha256_def
        FSCRYPT_NOKEY_NAME_MAX_def split: sum.splits)

lemma base64_decode_error: "base64_decode s = Inl e \<Longrightarrow> e = - 2 \<or> e = - 1"
proof -
  have "base64_decode_loop s ac bits cp = Inl e \<Longrightarrow> e = - 2" for ac bits cp
    by (induction s arbitrary: ac bits cp) (auto split: option.splits if_splits)
  then show "base64_decode s = Inl e \<Longrightarrow> e = - 2 \<or> e = - 1"
    by (auto simp: base64_decode_def split: sum.splits if_splits)
qed

text \<open>
  C4: \<^verbatim>\<open>fscrypt_setup_filename\<close> on an encrypted directory (and a name other than \<open>.\<close>
  and \<open>..\<close>) whose key is unavailable after \<^verbatim>\<open>fscrypt_get_encryption_info\<close> succeeded.
  With \<^verbatim>\<open>lookup == 0\<close> the call fails with \<^verbatim>\<open>ENOKEY\<close>. With lookup allowed (and the
  scratch buffer allocated) the user name is decoded, and the call fails with
  \<^verbatim>\<open>ENOENT\<close> unless the decoded length is 9 to 157 (the dirhash pair and 1 to 149
  content bytes) or exactly 189. In the first case the bytes after the dirhash pair
  become the disk name; in the second no disk name is set (a user name of more than
  \<^verbatim>\<open>BASE64_CHARS(189)\<close> characters is not found before it is decoded).
\<close>

theorem C4_setup_filename_nokey:
  assumes "IS_ENCRYPTED dir" and "\<not> fscrypt_is_dot_dotdot iname"
    and "gei dir = Inr dir'" and "i_crypt_info dir' = None"
  shows "(lookup = 0 \<longrightarrow> fscrypt_setup_filename h cop gei env dir iname lookup = Inl ENOKEY)
       \<and> (lookup \<noteq> 0 \<and> kmalloc env FSCRYPT_NOKEY_NAME_MAX \<longrightarrow>
            ((\<forall>bs. base64_decode iname = Inr bs \<longrightarrow>
                 \<not> (9 \<le> length bs \<and> length bs \<le> 157) \<and> length bs \<noteq> 189) \<longrightarrow>
               fscrypt_setup_filename h cop gei env dir iname lookup = Inl ENOENT)
          \<and> (\<forall>bs. base64_decode iname = Inr bs \<and> 9 \<le> length bs \<and> length bs \<le> 157 \<longrightarrow>
               fscrypt_setup_filename h cop gei env dir iname lookup =
                 Inr \<lparr>usr_fname = iname, disk_name = Some (drop 8 bs),
                      hash = u32_of_bytes (take 4 bs),
                      minor_hash = u32_of_bytes (take 4 (drop 4 bs)),
                      crypto_buf = Some bs, is_ciphertext_name = True\<rparr>)
          \<and> (\<forall>bs. base64_decode iname = Inr bs \<and> length bs = 189 \<longrightarrow>
               fscrypt_setup_filename h cop gei env dir iname lookup =
                 (if length iname \<le> BASE64_CHARS FSCRYPT_NOKEY_NAME_MAX
                  then Inr \<lparr>usr_fname = iname, disk_name = None,
                            hash = u32_of_bytes (take 4 bs),
                            minor_hash = u32_of_bytes (take 4 (drop 4 bs)),
                            crypto_buf = Some bs, is_ciphertext_name = True\<rparr>
                  else Inl ENOENT)))"
proof -
  note eq = setup_filename_nokey [where gei = gei and dir = dir and dir' = dir'
      and iname = iname and h = h and cop = cop and env = env and lookup = lookup, OF assms]
  have c1: "lookup = 0 \<longrightarrow> fscrypt_setup_filename h cop gei env dir iname lookup = Inl ENOKEY"
    unfolding eq by simp
  have c2: "fscrypt_setup_filename h cop gei env dir iname lookup = Inl ENOENT"
    if "lookup \<noteq> 0" "kmalloc env FSCRYPT_NOKEY_NAME_MAX"
      "\<forall>bs. base64_decode iname = Inr bs \<longrightarrow>
                 \<not> (9 \<le> length bs \<and> length bs \<le> 157) \<and> length bs \<noteq> 189"
  proof (cases "base64_decode iname")
    case (Inl e)
    with base64_decode_error [OF Inl] that show ?thesis
      unfolding eq by auto
  next
    case (Inr bs)
    with that show ?thesis
      unfolding eq by auto
  qed
  have c3: "fscrypt_setup_filename h cop gei env dir iname lookup =
                 Inr \<lparr>usr_fname = iname, disk_name = Some (drop 8 bs),
                      hash = u32_of_bytes (take 4 bs),
                      minor_hash = u32_of_bytes (take 4 (drop 4 bs)),
                      crypto_buf = Some bs, is_ciphertext_name = True\<rparr>"
    if "lookup \<noteq> 0" "kmalloc env FSCRYPT_NOKEY_NAME_MAX"
      "base64_decode iname = Inr bs" "9 \<le> length bs" "length bs \<le> 157" for bs
  proof -
    from base64_decode_length [OF that(3)] that(5) have "6 * length iname div 8 \<le> 157"
      by simp
    then have "length iname \<le> BASE64_CHARS FSCRYPT_NOKEY_NAME_MAX"
      by (simp add: BASE64_CHARS_def FSCRYPT_NOKEY_NAME_MAX_def)
    with that show ?thesis
      unfolding eq by simp
  qed
  have c4: "fscrypt_setup_filename h cop gei env dir iname lookup =
                 (if length iname \<le> BASE64_CHARS FSCRYPT_NOKEY_NAME_MAX
                  then Inr \<lparr>usr_fname = iname, disk_name = None,
                            hash = u32_of_bytes (take 4 bs),
                            minor_hash = u32_of_bytes (take 4 (drop 4 bs)),
                            crypto_buf = Some bs, is_ciphertext_name = True\<rparr>
                  else Inl ENOENT)"
    if "lookup \<noteq> 0" "kmalloc env FSCRYPT_NOKEY_NAME_MAX"
      "base64_decode iname = Inr bs" "length bs = 189" for bs
    using that unfolding eq by simp
  show ?thesis
    using c1 c2 c3 c4 by blast
qed


theorem C4_setup_filename_nokey_witness:
  "IS_ENCRYPTED (ex_inode S_IFDIR True None)
   \<and> \<not> fscrypt_is_dot_dotdot ''AAAAAAAAAAAAAAAAAAAAAAAAAAAAAAAA''
   \<and> \<not> fscrypt_is_dot_dotdot ''AAAA''
   \<and> gei_ok (ex_inode S_IFDIR True None) = Inr (ex_inode S_IFDIR True None)
   \<and> i_crypt_info (ex_inode S_IFDIR True None) = None
   \<and> kmalloc ex_env FSCRYPT_NOKEY_NAME_MAX
   \<and> base64_decode ''AAAAAAAAAAAAAAAAAAAAAAAAAAAAAAAA'' = Inr (replicate 24 0)
   \<and> base64_decode ''AAAA'' = Inr (replicate 3 0)
   \<and> fscrypt_setup_filename linux_hdr ex_cop gei_ok ex_env (ex_inode S_IFDIR True None)
        ''AAAAAAAAAAAAAAAAAAAAAAAAAAAAAAAA'' 0 = Inl ENOKEY
   \<and> fscrypt_setup_filename linux_hdr ex_cop gei_ok ex_env (ex_inode S_IFDIR True None)
        ''AAAAAAAAAAAAAAAAAAAAAAAAAAAAAAAA'' 1 =
         Inr \<lparr>usr_fname = ''AAAAAAAAAAAAAAAAAAAAAAAAAAAAAAAA'',
              disk_name = Some (drop 8 (replicate 24 0)),
              hash = u32_of_bytes (take 4 (replicate 24 0)),
              minor_hash = u32_of_bytes (take 4 (drop 4 (replicate 24 0))),
              crypto_buf = Some (replicate 24 0), is_ciphertext_name = True\<rparr>
   \<and> fscrypt_setup_filename linux_hdr ex_cop gei_ok ex_env (ex_inode S_IFDIR True None)
        ''AAAA'' 1 = Inl ENOENT"
proof -
  let ?dir = "ex_inode S_IFDIR True None"
  let ?n = "''AAAAAAAAAAAAAAAAAAAAAAAAAAAAAAAA''"
  have e: "IS_ENCRYPTED ?dir" and k: "i_crypt_info ?dir = None"
    by (simp_all add: ex_inode_def)
  have d: "\<not> fscrypt_is_dot_dotdot ?n" "\<not> fscrypt_is_dot_dotdot ''AAAA''"
    by (simp_all add: fscrypt_is_dot_dotdot_def)
  have g: "gei_ok ?dir = Inr ?dir"
    by (simp add: gei_ok_def)
  have m: "kmalloc ex_env FSCRYPT_NOKEY_NAME_MAX"
    by (simp add: ex_env_def)
  have b: "base64_decode ?n = Inr (replicate 24 0)"
    by code_simp
  have b': "base64_decode ''AAAA'' = Inr (replicate 3 0)"
    by code_simp
  have l: "length (replicate 24 (0::u8)) = 24" "length (replicate 3 (0::u8)) = 3"
    by simp_all
  show ?thesis
    using e k d g m b b'
      C4_setup_filename_nokey [where gei = gei_ok and dir = ?dir and dir' = ?dir
        and iname = ?n and h = linux_hdr and cop = ex_cop and env = ex_env and lookup = 0,
        OF e d(1) g k]
      C4_setup_filename_nokey [where gei = gei_ok and dir = ?dir and dir' = ?dir
        and iname = ?n and h = linux_hdr and cop = ex_cop and env = ex_env and lookup = 1,
        OF e d(1) g k]
      C4_setup_filename_nokey [where gei = gei_ok and dir = ?dir and dir' = ?dir
        and iname = "''AAAA''" and h = linux_hdr and cop = ex_cop and env = ex_env
        and lookup = 1, OF e d(2) g k]
    by (simp add: l)
qed


end
